theory Spec2Isabelle
  imports Main "HOL-Library.Multiset" "HOL-Library.Char_ord" "HOL-Library.List_Lexorder"
begin

section \<open>Values\<close>

text \<open>
  The Python values that reach the benchmark as arguments, defaults and results: the
  JSON-native values and tuples. A \<open>dict\<close> is an association list in insertion order,
  with text keys. Floating point numbers and objects of other classes are outside the model.
\<close>

datatype pyval =
    VNone
  | VBool bool
  | VInt int
  | VStr string
  | VList "pyval list"
  | VTuple "pyval list"
  | VDict "(string \<times> pyval) list"

text \<open>The serialized tree: null, boolean, number, text, sequence, mapping of text.\<close>

datatype json =
    JNull
  | JBool bool
  | JNum int
  | JStr string
  | JArr "json list"
  | JObj "(string \<times> json) list"

subsection \<open>Python dictionaries as association lists\<close>

text \<open>\<open>d[k] = v\<close>: an existing key keeps its position, a new key goes to the end.\<close>

fun dict_set :: "string \<Rightarrow> 'v \<Rightarrow> (string \<times> 'v) list \<Rightarrow> (string \<times> 'v) list" where
  "dict_set k v [] = [(k, v)]"
| "dict_set k v ((k', v') # d) = (if k = k' then (k, v) # d else (k', v') # dict_set k v d)"

text \<open>\<open>d.update(e)\<close>: the items of \<open>e\<close> are assigned in their order.\<close>

fun dict_update :: "(string \<times> 'v) list \<Rightarrow> (string \<times> 'v) list \<Rightarrow> (string \<times> 'v) list" where
  "dict_update d [] = d"
| "dict_update d ((k, v) # e) = dict_update (dict_set k v d) e"

text \<open>\<open>d.pop(k)\<close> leaves the dictionary without the key.\<close>

definition dict_remove :: "string \<Rightarrow> (string \<times> 'v) list \<Rightarrow> (string \<times> 'v) list" where
  "dict_remove k d = filter (\<lambda>kv. fst kv \<noteq> k) d"

definition startswith :: "string \<Rightarrow> string \<Rightarrow> bool" where
  "startswith s p = (take (length p) s = p)"

section \<open>Serializer and fingerprint\<close>

text \<open>
  Modelled from the spec: \<open>to_json\<close> (module \<open>db.json_serializer\<close>, imported by
  \<open>benchmark.py\<close> and not part of the sources at hand). Values of a JSON-native type
  pass through unchanged, a tuple becomes a sequence.
\<close>

fun to_json :: "pyval \<Rightarrow> json" where
  "to_json VNone = JNull"
| "to_json (VBool b) = JBool b"
| "to_json (VInt i) = JNum i"
| "to_json (VStr s) = JStr s"
| "to_json (VList xs) = JArr (map to_json xs)"
| "to_json (VTuple xs) = JArr (map to_json xs)"
| "to_json (VDict kvs) = JObj (map (\<lambda>kv. (fst kv, to_json (snd kv))) kvs)"

text \<open>
  Modelled from the spec: the canonical form the fingerprint is computed from
  (module \<open>fingerprint\<close>, not part of the sources at hand): mapping keys sorted
  lexicographically, at every depth.
\<close>

fun canon :: "json \<Rightarrow> json" where
  "canon (JArr xs) = JArr (map canon xs)"
| "canon (JObj kvs) = JObj (sort_key fst (map (\<lambda>kv. (fst kv, canon (snd kv))) kvs))"
| "canon j = j"

text \<open>
  The environment of a run: the cryptographic hash together with the rendering of a
  canonical tree as bytes (\<open>digest\<close>), and the rendering of a clock reading as ISO-8601
  text (\<open>isoformat\<close>). Both are parameters of the model.
\<close>

record env =
  digest :: "json \<Rightarrow> string"
  isoformat :: "nat \<Rightarrow> string"

text \<open>
  Modelled from the spec: \<open>fingerprint\<close>: serialize, canonicalize, hash.
\<close>

definition fingerprint :: "env \<Rightarrow> pyval \<Rightarrow> string" where
  "fingerprint E data = digest E (canon (to_json data))"

section \<open>Signatures and argument binding\<close>

datatype param_kind =
  POSITIONAL_ONLY | POSITIONAL_OR_KEYWORD | VAR_POSITIONAL | KEYWORD_ONLY | VAR_KEYWORD

text \<open>A parameter of a signature; \<open>param_default = None\<close> is \<open>Parameter.empty\<close>.\<close>

record param =
  param_name :: string
  param_kind :: param_kind
  param_default :: "pyval option"

datatype bind_error =
    TooManyPositional
  | MissingRequired string
  | MultipleValues string
  | PositionalOnlyAsKeyword string
  | UnexpectedKeyword string

text \<open>
  \<open>inspect.Signature.bind\<close> (as in CPython 3.11), first loop: the positional arguments
  are matched with the parameters in order. The result is the \<open>arguments\<close> dictionary so far and the
  parameters left for the second loop (\<open>parameters_ex\<close> followed by the rest).
\<close>

fun bind_positional ::
  "param list \<Rightarrow> pyval list \<Rightarrow> (string \<times> pyval) list \<Rightarrow> (string \<times> pyval) list
    \<Rightarrow> bind_error + ((string \<times> pyval) list \<times> param list)" where
  "bind_positional [] [] kwargs arguments = Inr (arguments, [])"
| "bind_positional (p # ps) [] kwargs arguments =
     (if param_kind p = VAR_POSITIONAL then Inr (arguments, ps)
      else if param_name p \<in> fst ` set kwargs then
        (if param_kind p = POSITIONAL_ONLY then Inl (PositionalOnlyAsKeyword (param_name p))
         else Inr (arguments, p # ps))
      else if param_kind p = VAR_KEYWORD \<or> param_default p \<noteq> None then Inr (arguments, p # ps)
      else Inl (MissingRequired (param_name p)))"
| "bind_positional [] (a # as) kwargs arguments = Inl TooManyPositional"
| "bind_positional (p # ps) (a # as) kwargs arguments =
     (if param_kind p = VAR_KEYWORD \<or> param_kind p = KEYWORD_ONLY then Inl TooManyPositional
      else if param_kind p = VAR_POSITIONAL then
        Inr (dict_set (param_name p) (VTuple (a # as)) arguments, ps)
      else if param_name p \<in> fst ` set kwargs \<and> param_kind p \<noteq> POSITIONAL_ONLY then
        Inl (MultipleValues (param_name p))
      else bind_positional ps as kwargs (dict_set (param_name p) a arguments))"

text \<open>
  Second loop: the remaining parameters take their values from the keyword arguments,
  which are popped as they are used; what is left goes to the \<open>**kwargs\<close> parameter,
  if there is one.
\<close>

fun bind_keywords ::
  "param list \<Rightarrow> (string \<times> pyval) list \<Rightarrow> (string \<times> pyval) list \<Rightarrow> param option
    \<Rightarrow> bind_error + (string \<times> pyval) list" where
  "bind_keywords [] kwargs arguments kwargs_param =
     (if kwargs \<noteq> [] then
        (case kwargs_param of
           Some p \<Rightarrow> Inr (dict_set (param_name p) (VDict kwargs) arguments)
         | None \<Rightarrow> Inl (UnexpectedKeyword (fst (hd kwargs))))
      else Inr arguments)"
| "bind_keywords (p # ps) kwargs arguments kwargs_param =
     (if param_kind p = VAR_KEYWORD then bind_keywords ps kwargs arguments (Some p)
      else if param_kind p = VAR_POSITIONAL then bind_keywords ps kwargs arguments kwargs_param
      else
        (case map_of kwargs (param_name p) of
           None \<Rightarrow>
             (if param_default p = None then Inl (MissingRequired (param_name p))
              else bind_keywords ps kwargs arguments kwargs_param)
         | Some arg_val \<Rightarrow>
             (if param_kind p = POSITIONAL_ONLY then Inl (PositionalOnlyAsKeyword (param_name p))
              else bind_keywords ps (dict_remove (param_name p) kwargs)
                     (dict_set (param_name p) arg_val arguments) kwargs_param)))"

definition bind ::
  "param list \<Rightarrow> pyval list \<Rightarrow> (string \<times> pyval) list \<Rightarrow> bind_error + (string \<times> pyval) list" where
  "bind sig args kwargs =
     (case bind_positional sig args kwargs [] of
        Inl e \<Rightarrow> Inl e
      | Inr (arguments, rest) \<Rightarrow> bind_keywords rest kwargs arguments None)"

section \<open>Callables, exceptions, process state\<close>

text \<open>
  An exception is caught by \<open>except Exception\<close> when its class derives from
  \<open>Exception\<close>; \<open>KeyboardInterrupt\<close>, \<open>SystemExit\<close> and \<open>GeneratorExit\<close> derive from
  \<open>BaseException\<close> only. \<open>TypeError\<close> is what \<open>bind\<close> raises.
\<close>

datatype exc_base = ExceptionSubclass | BaseExceptionOnly

datatype exc =
    TypeError bind_error
  | Raised exc_base string string

fun is_Exception :: "exc \<Rightarrow> bool" where
  "is_Exception (TypeError e) = True"
| "is_Exception (Raised b cls msg) = (b = ExceptionSubclass)"

text \<open>
  What one call of the wrapped computation does: it returns a value or raises, writes
  text to \<open>sys.stdout\<close> and \<open>sys.stderr\<close>, and takes some ticks of the clock.
\<close>

record outcome =
  returned :: "exc + pyval"
  stdout_text :: string
  stderr_text :: string
  duration :: nat

text \<open>
  A callable as the benchmark sees it: \<open>__name__\<close>, \<open>inspect.signature\<close>, and the
  effect of \<open>func(*args, **kwargs)\<close>. The computation does not reach the store itself.
\<close>

record callable =
  func_name :: string
  signature :: "param list"
  body :: "pyval list \<Rightarrow> (string \<times> pyval) list \<Rightarrow> outcome"

text \<open>What \<open>print\<close> sends to the console of the process.\<close>

datatype printed =
    Out string
  | OutLn string
  | OutLnYaml json
  | OutLnError exc
  | OutLnTraceback exc

text \<open>
  The process around the benchmark: the console, the clock, and the log of the calls of
  wrapped computations made so far (name, positional and keyword arguments).
\<close>

record process =
  console :: "printed list"
  clock :: nat
  calls :: "(string \<times> pyval list \<times> (string \<times> pyval) list) list"

section \<open>The result store\<close>

text \<open>
  Modelled from the spec: the Entry, \<open>{fingerprint, parameters, result}\<close>, with the
  parameters and the result as serialized trees.
\<close>

record entry =
  entry_fingerprint :: string
  entry_parameters :: json
  entry_result :: json

text \<open>
  Modelled from the spec: the state of the class \<open>BenchmarkDb\<close> (module
  \<open>benchmark_db\<close>, imported by \<open>benchmark.py\<close> and not part of the sources at hand).
  The store is a sequence of independently written units, each holding Entries.
  Writes are visible at once: one process, no concurrency.
\<close>

type_synonym store = "entry list list"

text \<open>
  Modelled from the spec: iteration of \<open>BenchmarkDb\<close> produces every Entry currently
  stored.
\<close>

definition db_iter :: "store \<Rightarrow> entry list" where
  "db_iter s = concat s"

text \<open>
  Modelled from the spec: \<open>BenchmarkDb.contains_fingerprint\<close>: whether an Entry with
  this fingerprint is stored.
\<close>

definition db_contains_fingerprint :: "string \<Rightarrow> store \<Rightarrow> bool" where
  "db_contains_fingerprint fingp s = (fingp \<in> entry_fingerprint ` set (db_iter s))"

text \<open>
  Modelled from the spec: \<open>BenchmarkDb.insert\<close> persists an Entry as it is given, in a
  unit of its own; Entries with the same fingerprint are all kept.
\<close>

definition db_insert :: "entry \<Rightarrow> store \<Rightarrow> store" where
  "db_insert e s = s @ [[e]]"

text \<open>
  Modelled from the spec: \<open>BenchmarkDb.add\<close> builds the Entry from the fingerprint, the
  serialized parameters and the result payload, which goes through the serializer, and
  persists it.
\<close>

definition db_add :: "string \<Rightarrow> json \<Rightarrow> pyval \<Rightarrow> store \<Rightarrow> store" where
  "db_add arg_fingerprint arg_data result s =
     db_insert \<lparr>entry_fingerprint = arg_fingerprint, entry_parameters = arg_data,
                entry_result = to_json result\<rparr> s"

text \<open>
  Modelled from the spec: \<open>BenchmarkDb.compress\<close> merges the units into one and keeps
  every Entry.
\<close>

definition db_compress :: "store \<Rightarrow> store" where
  "db_compress s = (if db_iter s = [] then [] else [db_iter s])"

text \<open>Modelled from the spec: \<open>BenchmarkDb.delete\<close> removes the whole collection.\<close>

definition db_delete :: "store \<Rightarrow> store" where
  "db_delete s = []"

text \<open>
  Modelled from the spec: \<open>BenchmarkDb.front\<close>: the first Entry of a fresh scan, if
  there is one.
\<close>

definition db_front :: "store \<Rightarrow> entry option" where
  "db_front s = (case db_iter s of [] \<Rightarrow> None | e # es \<Rightarrow> Some e)"

section \<open>The class Benchmark\<close>

record benchmark =
  db :: store

text \<open>\<open>Benchmark(path)\<close> on a location that holds nothing yet.\<close>

definition Benchmark_init :: benchmark where
  "Benchmark_init = \<lparr>db = []\<rparr>"

text \<open>
  \<open>_get_arg_data\<close>: the declared defaults, updated with the bound arguments, without
  the names that start with an underscore; together with the name of the callable this
  is fingerprinted and serialized. The names of the parameters of a signature are
  distinct, so the comprehension over \<open>sig.parameters\<close> is a list of its items.
\<close>

definition get_arg_data ::
  "env \<Rightarrow> callable \<Rightarrow> pyval list \<Rightarrow> (string \<times> pyval) list \<Rightarrow> exc + (string \<times> json)" where
  "get_arg_data E func args kwargs =
     (let func_args = List.map_filter
            (\<lambda>p. case param_default p of None \<Rightarrow> None | Some d \<Rightarrow> Some (param_name p, d))
            (signature func)
      in case bind (signature func) args kwargs of
           Inl e \<Rightarrow> Inl (TypeError e)
         | Inr arguments \<Rightarrow>
             (let func_args = dict_update func_args arguments;
                  data = VDict [(''func'', VStr (func_name func)),
                                (''args'', VDict (filter (\<lambda>kv. \<not> startswith (fst kv) ''_'') func_args))]
              in Inr (fingerprint E data, to_json data)))"

text \<open>
  The fingerprint a call is identified by: the \<open>fingp\<close> that \<open>exists\<close> and \<open>run\<close> take
  from \<open>_get_arg_data\<close>; there is none when binding raises.
\<close>

definition call_fingerprint ::
  "env \<Rightarrow> callable \<Rightarrow> pyval list \<Rightarrow> (string \<times> pyval) list \<Rightarrow> string option" where
  "call_fingerprint E func args kwargs =
     (case get_arg_data E func args kwargs of
        Inl e \<Rightarrow> None
      | Inr (fingp, arg_data) \<Rightarrow> Some fingp)"

text \<open>\<open>exists\<close> raises what \<open>_get_arg_data\<close> raises, or asks the store.\<close>

definition exists ::
  "env \<Rightarrow> callable \<Rightarrow> pyval list \<Rightarrow> (string \<times> pyval) list \<Rightarrow> benchmark \<Rightarrow> exc + bool" where
  "exists E func args kwargs b =
     (case get_arg_data E func args kwargs of
        Inl e \<Rightarrow> Inl e
      | Inr (fingp, _) \<Rightarrow> Inr (db_contains_fingerprint fingp (db b)))"

text \<open>
  \<open>run\<close>: \<open>_get_arg_data\<close> is called before the \<open>try\<close> block. Inside it, with standard
  output and standard error redirected, the clock is read, the computation is called and
  timed (the call is logged), and the result payload goes to the store; the progress
  dot is printed. \<open>except Exception\<close> prints the diagnostics and raises again; any
  other exception passes through. The store is assumed to be available and writable.
\<close>

definition run ::
  "env \<Rightarrow> callable \<Rightarrow> pyval list \<Rightarrow> (string \<times> pyval) list \<Rightarrow> benchmark \<times> process
    \<Rightarrow> (exc + unit) \<times> benchmark \<times> process" where
  "run E func args kwargs s =
     (case get_arg_data E func args kwargs of
        Inl e \<Rightarrow> (Inl e, s)
      | Inr (fingp, arg_data) \<Rightarrow>
          (let b = fst s; p = snd s;
               timestamp = isoformat E (clock p);
               r = body func args kwargs;
               p = p\<lparr>clock := clock p + duration r,
                      calls := calls p @ [(func_name func, args, kwargs)]\<rparr>
           in case returned r of
                Inr result \<Rightarrow>
                  (let runtime = duration r;
                       b = b\<lparr>db := db_add fingp arg_data
                              (VDict [(''result'', result),
                                      (''timestamp'', VStr timestamp),
                                      (''runtime'', VInt (int runtime)),
                                      (''stdout'', VStr (stdout_text r)),
                                      (''stderr'', VStr (stderr_text r))])
                              (db b)\<rparr>;
                       p = p\<lparr>console := console p @ [Out ''.'']\<rparr>
                   in (Inr (), b, p))
              | Inl e \<Rightarrow>
                  (if is_Exception e then
                     (Inl e, b, p\<lparr>console := console p @
                        [OutLn [],
                         OutLn ''Exception while running benchmark.'',
                         OutLn ''====================================='',
                         OutLnYaml arg_data,
                         OutLn ''-------------------------------------'',
                         OutLnError e,
                         OutLnTraceback e,
                         OutLn ''-------------------------------------'']\<rparr>)
                   else (Inl e, b, p))))"

text \<open>\<open>add\<close> calls \<open>run\<close> only if \<open>exists\<close> is false.\<close>

definition add ::
  "env \<Rightarrow> callable \<Rightarrow> pyval list \<Rightarrow> (string \<times> pyval) list \<Rightarrow> benchmark \<times> process
    \<Rightarrow> (exc + unit) \<times> benchmark \<times> process" where
  "add E func args kwargs s =
     (case exists E func args kwargs (fst s) of
        Inl e \<Rightarrow> (Inl e, s)
      | Inr found \<Rightarrow> (if \<not> found then run E func args kwargs s else (Inr (), s)))"

definition insert_entry :: "entry \<Rightarrow> benchmark \<Rightarrow> benchmark" where
  "insert_entry e b = b\<lparr>db := db_insert e (db b)\<rparr>"

definition compress :: "benchmark \<Rightarrow> benchmark" where
  "compress b = b\<lparr>db := db_compress (db b)\<rparr>"

definition delete :: "benchmark \<Rightarrow> benchmark" where
  "delete b = b\<lparr>db := db_delete (db b)\<rparr>"

definition front :: "benchmark \<Rightarrow> entry option" where
  "front b = db_front (db b)"

text \<open>
  \<open>__iter__\<close> yields a copy of every Entry of the store. As a value, a copy is the Entry
  itself; the objects behind the copies are the subject of the last section.
\<close>

definition iter :: "benchmark \<Rightarrow> entry list" where
  "iter b = db_iter (db b)"

text \<open>
  \<open>delete_if\<close>: the Entries that do not meet the condition go to a fresh benchmark in a
  temporary directory; the benchmark is deleted, filled again from the copy and
  compressed; the copy is deleted. The condition is a total predicate on Entries: it
  neither raises nor changes the Entry it is given.
\<close>

definition delete_if :: "(entry \<Rightarrow> bool) \<Rightarrow> benchmark \<Rightarrow> benchmark" where
  "delete_if condition self =
     (let benchmark_copy = Benchmark_init;
          benchmark_copy =
            foldl (\<lambda>c entry. if \<not> condition entry then insert_entry entry c else c)
              benchmark_copy (iter self);
          self = delete self;
          self = foldl (\<lambda>b entry. insert_entry entry b) self (iter benchmark_copy);
          self = compress self;
          benchmark_copy = delete benchmark_copy
      in self)"

definition repair :: "benchmark \<Rightarrow> benchmark" where
  "repair self = delete_if (\<lambda>data. False) self"

section \<open>Example environment, callables and stores\<close>

text \<open>A rendering of trees as text, used as the digest of the example environment.\<close>

fun render :: "json \<Rightarrow> string" where
  "render JNull = ''null''"
| "render (JBool b) = (if b then ''true'' else ''false'')"
| "render (JNum i) = (if i < 0 then ''-'' else ''+'') @ replicate (nat \<bar>i\<bar>) (CHR ''1'')"
| "render (JStr s) = ''<'' @ s @ ''>''"
| "render (JArr xs) = ''['' @ concat (map (\<lambda>x. render x @ '','') xs) @ '']''"
| "render (JObj kvs) =
     ''{'' @ concat (map (\<lambda>kv. fst kv @ '':'' @ render (snd kv) @ '','') kvs) @ ''}''"

definition test_env :: env where
  "test_env = \<lparr>digest = render, isoformat = (\<lambda>t. replicate t (CHR ''t''))\<rparr>"

definition process0 :: process where
  "process0 = \<lparr>console = [], clock = 3, calls = []\<rparr>"

text \<open>
  The callable of the class documentation:
  \<^verbatim>\<open>def f(x, _test=2, default="default"): print(x); return {"r1": x, "r2": "test"}\<close>
\<close>

definition example_signature :: "param list" where
  "example_signature =
     [\<lparr>param_name = ''x'', param_kind = POSITIONAL_OR_KEYWORD, param_default = None\<rparr>,
      \<lparr>param_name = ''_test'', param_kind = POSITIONAL_OR_KEYWORD,
        param_default = Some (VInt 2)\<rparr>,
      \<lparr>param_name = ''default'', param_kind = POSITIONAL_OR_KEYWORD,
        param_default = Some (VStr ''default'')\<rparr>]"

definition example_f :: callable where
  "example_f = \<lparr>func_name = ''f'', signature = example_signature,
     body = (\<lambda>args kwargs.
       case args @ map snd (filter (\<lambda>kv. fst kv = ''x'') kwargs) of
         x # _ \<Rightarrow> \<lparr>returned = Inr (VDict [(''r1'', x), (''r2'', VStr ''test'')]),
                   stdout_text = ''printed'', stderr_text = [], duration = 7\<rparr>
       | [] \<Rightarrow> \<lparr>returned = Inl (Raised ExceptionSubclass ''TypeError'' ''missing x''),
                 stdout_text = [], stderr_text = [], duration = 0\<rparr>)\<rparr>"

text \<open>The benchmark after \<^verbatim>\<open>benchmark.add(f, 1, _test=None)\<close> on an empty store.\<close>

definition f1_benchmark :: benchmark where
  "f1_benchmark =
     fst (snd (add test_env example_f [VInt 1] [(''_test'', VNone)] (Benchmark_init, process0)))"

text \<open>The same name and signature with another body: it writes a line and raises.\<close>

definition raising_f :: callable where
  "raising_f = \<lparr>func_name = ''f'', signature = example_signature,
     body = (\<lambda>args kwargs.
       \<lparr>returned = Inl (Raised ExceptionSubclass ''ValueError'' ''boom''),
        stdout_text = ''started'', stderr_text = [], duration = 2\<rparr>)\<rparr>"

text \<open>A computation interrupted from the keyboard while it runs.\<close>

definition interrupted_f :: callable where
  "interrupted_f = \<lparr>func_name = ''f'', signature = example_signature,
     body = (\<lambda>args kwargs.
       \<lparr>returned = Inl (Raised BaseExceptionOnly ''KeyboardInterrupt'' []),
        stdout_text = ''started'', stderr_text = [], duration = 2\<rparr>)\<rparr>"

text \<open>Three Entries with \<open>r1\<close> = 1, 6, 10 in their results, and the condition \<open>r1 > 5\<close>.\<close>

definition r1_entry :: "string \<Rightarrow> int \<Rightarrow> entry" where
  "r1_entry fingp n = \<lparr>entry_fingerprint = fingp, entry_parameters = JObj [],
                       entry_result = JObj [(''r1'', JNum n)]\<rparr>"

definition r1_gt_5 :: "entry \<Rightarrow> bool" where
  "r1_gt_5 e = (case entry_result e of
       JObj kvs \<Rightarrow> (case map_of kvs ''r1'' of Some (JNum n) \<Rightarrow> n > 5 | _ \<Rightarrow> False)
     | _ \<Rightarrow> False)"

definition r1_benchmark :: benchmark where
  "r1_benchmark =
     insert_entry (r1_entry ''c'' 10)
       (insert_entry (r1_entry ''b'' 6) (insert_entry (r1_entry ''a'' 1) Benchmark_init))"

text \<open>A callable that takes further keyword arguments: \<^verbatim>\<open>def g(x, **options): return x\<close>\<close>

definition example_g :: callable where
  "example_g = \<lparr>func_name = ''g'',
     signature =
       [\<lparr>param_name = ''x'', param_kind = POSITIONAL_OR_KEYWORD, param_default = None\<rparr>,
        \<lparr>param_name = ''options'', param_kind = VAR_KEYWORD, param_default = None\<rparr>],
     body = (\<lambda>args kwargs.
       \<lparr>returned = Inr (VList (args @ map snd kwargs)),
        stdout_text = [], stderr_text = [], duration = 1\<rparr>)\<rparr>"

section \<open>The objects behind iteration\<close>

text \<open>
  The dictionaries a caller gets from iteration are mutable Python objects. An object
  lives at an address of the heap; the heap is the list of the objects allocated so
  far. A list or dictionary holds the addresses of its items, so two containers may
  share an item, and a change of the shared item shows in both.
\<close>

datatype obj =
    ONone
  | OBool bool
  | OInt int
  | OStr string
  | OList "nat list"
  | ODict "(string \<times> nat) list"

text \<open>Building a tree as new objects: the items first, then the container.\<close>

fun load :: "json \<Rightarrow> obj list \<Rightarrow> nat \<times> obj list"
  and load_items :: "json list \<Rightarrow> obj list \<Rightarrow> nat list \<times> obj list"
  and load_fields :: "(string \<times> json) list \<Rightarrow> obj list \<Rightarrow> (string \<times> nat) list \<times> obj list"
where
  "load JNull h = (length h, h @ [ONone])"
| "load (JBool b) h = (length h, h @ [OBool b])"
| "load (JNum i) h = (length h, h @ [OInt i])"
| "load (JStr s) h = (length h, h @ [OStr s])"
| "load (JArr js) h = (case load_items js h of (as, h') \<Rightarrow> (length h', h' @ [OList as]))"
| "load (JObj kvs) h = (case load_fields kvs h of (kas, h') \<Rightarrow> (length h', h' @ [ODict kas]))"
| "load_items [] h = ([], h)"
| "load_items (j # js) h =
     (case load j h of (a, h1) \<Rightarrow>
        (case load_items js h1 of (as, h2) \<Rightarrow> (a # as, h2)))"
| "load_fields [] h = ([], h)"
| "load_fields ((k, j) # kvs) h =
     (case load j h of (a, h1) \<Rightarrow>
        (case load_fields kvs h1 of (kas, h2) \<Rightarrow> ((k, a) # kas, h2)))"

text \<open>
  \<open>represents n h a j\<close>: the object at address \<open>a\<close> of heap \<open>h\<close>, followed through all
  its items, is the tree \<open>j\<close>, and every object on the way has an address from \<open>n\<close> on.
\<close>

fun represents :: "nat \<Rightarrow> obj list \<Rightarrow> nat \<Rightarrow> json \<Rightarrow> bool"
  and represents_items :: "nat \<Rightarrow> obj list \<Rightarrow> nat list \<Rightarrow> json list \<Rightarrow> bool"
  and represents_fields ::
    "nat \<Rightarrow> obj list \<Rightarrow> (string \<times> nat) list \<Rightarrow> (string \<times> json) list \<Rightarrow> bool"
where
  "represents n h a JNull = (n \<le> a \<and> a < length h \<and> h ! a = ONone)"
| "represents n h a (JBool b) = (n \<le> a \<and> a < length h \<and> h ! a = OBool b)"
| "represents n h a (JNum i) = (n \<le> a \<and> a < length h \<and> h ! a = OInt i)"
| "represents n h a (JStr s) = (n \<le> a \<and> a < length h \<and> h ! a = OStr s)"
| "represents n h a (JArr js) =
     (n \<le> a \<and> a < length h \<and>
      (case h ! a of OList as \<Rightarrow> represents_items n h as js | _ \<Rightarrow> False))"
| "represents n h a (JObj kvs) =
     (n \<le> a \<and> a < length h \<and>
      (case h ! a of ODict kas \<Rightarrow> represents_fields n h kas kvs | _ \<Rightarrow> False))"
| "represents_items n h [] [] = True"
| "represents_items n h (a # as) (j # js) = (represents n h a j \<and> represents_items n h as js)"
| "represents_items n h [] (j # js) = False"
| "represents_items n h (a # as) [] = False"
| "represents_fields n h [] [] = True"
| "represents_fields n h ((k, a) # kas) ((k', j) # kvs) =
     (k = k' \<and> represents n h a j \<and> represents_fields n h kas kvs)"
| "represents_fields n h [] (kv # kvs) = False"
| "represents_fields n h (ka # kas) [] = False"

text \<open>
  Modelled from the spec: an Entry as the dictionary that iteration hands out, with the
  keys \<open>fingerprint\<close>, \<open>parameters\<close> and \<open>result\<close>.
\<close>

definition entry_json :: "entry \<Rightarrow> json" where
  "entry_json e = JObj [(''fingerprint'', JStr (entry_fingerprint e)),
                        (''parameters'', entry_parameters e),
                        (''result'', entry_result e)]"

text \<open>
  Modelled from the spec: iteration of \<open>BenchmarkDb\<close> (not part of the sources at hand)
  produces every stored Entry as an independent copy: the Entry is read from the
  store and built as new objects.
\<close>

definition db_next_object :: "entry \<Rightarrow> obj list \<Rightarrow> nat \<times> obj list" where
  "db_next_object e h = load (entry_json e) h"

text \<open>
  \<open>entry.copy()\<close>: a new dictionary with the same items (a shallow copy); \<open>a\<close> is the
  address of an object of the heap.
\<close>

definition dict_copy :: "nat \<Rightarrow> obj list \<Rightarrow> nat \<times> obj list" where
  "dict_copy a h = (length h, h @ [h ! a])"

text \<open>
  \<open>__iter__\<close> on objects: for every Entry that the store hands out, the generator
  yields its copy.
\<close>

fun iter_entries :: "entry list \<Rightarrow> obj list \<Rightarrow> nat list \<times> obj list" where
  "iter_entries [] h = ([], h)"
| "iter_entries (e # es) h =
     (case db_next_object e h of (entry, h1) \<Rightarrow>
        (case dict_copy entry h1 of (yielded, h2) \<Rightarrow>
           (case iter_entries es h2 of (rest, h3) \<Rightarrow> (yielded # rest, h3))))"

definition iter_objects :: "benchmark \<Rightarrow> obj list \<Rightarrow> nat list \<times> obj list" where
  "iter_objects b h = iter_entries (db_iter (db b)) h"

section \<open>Properties\<close>

subsection \<open>The store under \<open>delete_if\<close> and \<open>repair\<close>\<close>

lemma db_iter_foldl_insert_if:
  "db_iter (db (foldl (\<lambda>c entry. if \<not> P entry then insert_entry entry c else c) c0 es))
     = db_iter (db c0) @ filter (\<lambda>e. \<not> P e) es"
  by (induction es arbitrary: c0) (simp_all add: insert_entry_def db_insert_def db_iter_def)

lemma db_iter_foldl_insert:
  "db_iter (db (foldl (\<lambda>b entry. insert_entry entry b) b0 es)) = db_iter (db b0) @ es"
  by (induction es arbitrary: b0) (simp_all add: insert_entry_def db_insert_def db_iter_def)

lemma db_iter_compress: "db_iter (db_compress s) = db_iter s"
  by (simp add: db_compress_def db_iter_def)

lemma iter_delete_if: "iter (delete_if condition b) = filter (\<lambda>e. \<not> condition e) (iter b)"
  by (simp add: delete_if_def Let_def iter_def compress_def db_iter_compress
      db_iter_foldl_insert db_iter_foldl_insert_if delete_def db_delete_def Benchmark_init_def)
     (simp add: db_iter_def)

lemma iter_r1_benchmark:
  "iter r1_benchmark = [r1_entry ''a'' 1, r1_entry ''b'' 6, r1_entry ''c'' 10]"
  by (simp add: r1_benchmark_def iter_def insert_entry_def db_insert_def db_iter_def
      Benchmark_init_def)

text \<open>
  C5: after \<open>delete_if p\<close>, iterating the benchmark yields exactly the Entries stored
  before for which \<open>p\<close> is false, each as often as it was stored.
\<close>

theorem delete_if_keeps_exactly:
  "mset (iter (delete_if condition b)) = filter_mset (\<lambda>e. \<not> condition e) (mset (iter b))"
  by (simp add: iter_delete_if)

text \<open>
  The scenario of C5: of the Entries with \<open>r1\<close> = 1, 6, 10, the condition \<open>r1 > 5\<close>
  leaves the one with \<open>r1 = 1\<close>.
\<close>

theorem delete_if_keeps_exactly_witness:
  "iter (delete_if r1_gt_5 r1_benchmark) = [r1_entry ''a'' 1]"
proof -
  have "mset (iter (delete_if r1_gt_5 r1_benchmark)) = {#r1_entry ''a'' 1#}"
    using delete_if_keeps_exactly [of r1_gt_5 r1_benchmark]
    by (simp add: iter_r1_benchmark r1_gt_5_def r1_entry_def)
  then show ?thesis by simp
qed

text \<open>
  C10: \<open>repair\<close> is \<open>delete_if\<close> with the condition that is false everywhere, and
  iterating after \<open>repair\<close> yields the Entries that iteration yielded before, each as
  often as before.
\<close>

theorem repair_keeps_all:
  "repair b = delete_if (\<lambda>data. False) b \<and> mset (iter (repair b)) = mset (iter b)"
  by (simp add: repair_def iter_delete_if)

theorem repair_keeps_all_witness:
  "mset (iter (repair r1_benchmark)) = {#r1_entry ''a'' 1, r1_entry ''b'' 6, r1_entry ''c'' 10#}"
proof -
  have "mset (iter (repair r1_benchmark)) = mset (iter r1_benchmark)"
    using repair_keeps_all [of r1_benchmark] by blast
  then show ?thesis by (simp add: iter_r1_benchmark)
qed

subsection \<open>\<open>exists\<close>, \<open>run\<close> and \<open>add\<close>\<close>

lemma get_arg_data_fingerprint:
  "get_arg_data E f args kw = Inr (fingp, arg_data) \<Longrightarrow> fingp = digest E (canon arg_data)"
  by (auto simp: get_arg_data_def Let_def fingerprint_def split: sum.splits)

lemma get_arg_data_Inl:
  "bind (signature f) args kw = Inl err \<Longrightarrow> get_arg_data E f args kw = Inl (TypeError err)"
  by (simp add: get_arg_data_def Let_def)

lemma exists_Inr:
  "get_arg_data E f args kw = Inr (fingp, arg_data) \<Longrightarrow>
     exists E f args kw b = Inr (db_contains_fingerprint fingp (db b))"
  by (simp add: exists_def)

lemma run_raises:
  assumes "get_arg_data E f args kw = Inr (fingp, arg_data)"
      and "returned (body f args kw) = Inl e"
  shows "run E f args kw (b, p) =
     (Inl e, b, p\<lparr>clock := clock p + duration (body f args kw),
                    calls := calls p @ [(func_name f, args, kw)],
                    console := console p @
                      (if is_Exception e then
                        [OutLn [],
                         OutLn ''Exception while running benchmark.'',
                         OutLn ''====================================='',
                         OutLnYaml arg_data,
                         OutLn ''-------------------------------------'',
                         OutLnError e,
                         OutLnTraceback e,
                         OutLn ''-------------------------------------''] else [])\<rparr>)"
  using assms by (simp add: run_def Let_def)

lemma run_returns:
  assumes "get_arg_data E f args kw = Inr (fingp, arg_data)"
      and "returned (body f args kw) = Inr result"
  shows "run E f args kw (b, p) =
     (Inr (),
      b\<lparr>db := db b @ [[\<lparr>entry_fingerprint = fingp, entry_parameters = arg_data,
            entry_result = JObj [(''result'', to_json result),
                                 (''timestamp'', JStr (isoformat E (clock p))),
                                 (''runtime'', JNum (int (duration (body f args kw)))),
                                 (''stdout'', JStr (stdout_text (body f args kw))),
                                 (''stderr'', JStr (stderr_text (body f args kw)))]\<rparr>]]\<rparr>,
      p\<lparr>clock := clock p + duration (body f args kw),
        calls := calls p @ [(func_name f, args, kw)],
        console := console p @ [Out ''.'']\<rparr>)"
  using assms by (simp add: run_def Let_def db_add_def db_insert_def)

lemma add_found:
  "exists E f args kw b = Inr True \<Longrightarrow> add E f args kw (b, p) = (Inr (), b, p)"
  by (simp add: add_def)

lemma add_not_found:
  "exists E f args kw b = Inr False \<Longrightarrow> add E f args kw (b, p) = run E f args kw (b, p)"
  by (simp add: add_def)

lemma exists_after_run:
  assumes "get_arg_data E f args kw = Inr (fingp, arg_data)"
      and "returned (body f args kw) = Inr result"
  shows "exists E f args kw (fst (snd (run E f args kw (b, p)))) = Inr True"
  by (simp add: run_returns [OF assms] exists_def assms(1) db_contains_fingerprint_def
      db_iter_def)

lemma exists_after_add:
  assumes "fst (add E f args kw (b, p)) = Inr ()"
  shows "exists E f args kw (fst (snd (add E f args kw (b, p)))) = Inr True"
proof (cases "get_arg_data E f args kw")
  case (Inl e)
  with assms show ?thesis by (simp add: add_def exists_def)
next
  case (Inr r)
  obtain fingp arg_data where r: "r = (fingp, arg_data)" by (cases r)
  note g = Inr [unfolded r]
  show ?thesis
  proof (cases "db_contains_fingerprint fingp (db b)")
    case True
    with g show ?thesis by (simp add: add_def exists_def)
  next
    case False
    with g have eq: "add E f args kw (b, p) = run E f args kw (b, p)"
      by (simp add: add_def exists_def)
    show ?thesis
    proof (cases "returned (body f args kw)")
      case (Inl e)
      from assms eq run_raises [OF g Inl, of b p] show ?thesis by simp
    next
      case (Inr result)
      from exists_after_run [OF g Inr, of b p] eq show ?thesis by simp
    qed
  qed
qed

text \<open>
  C1, as the code has it: when the computation raises, \<open>run\<close> raises the same
  exception, the benchmark is the one before the call, so \<open>exists\<close> answers as before;
  for an exception deriving from \<open>Exception\<close> the console receives the serialized
  parameter record, the error and the traceback; for any other exception it receives nothing.
\<close>

theorem run_failure:
  assumes "get_arg_data E f args kw = Inr (fingp, arg_data)"
      and "returned (body f args kw) = Inl e"
  shows "fst (run E f args kw (b, p)) = Inl e
       \<and> fst (snd (run E f args kw (b, p))) = b
       \<and> exists E f args kw (fst (snd (run E f args kw (b, p)))) = exists E f args kw b
       \<and> (is_Exception e \<longrightarrow>
            console (snd (snd (run E f args kw (b, p)))) = console p @
              [OutLn [],
               OutLn ''Exception while running benchmark.'',
               OutLn ''====================================='',
               OutLnYaml arg_data,
               OutLn ''-------------------------------------'',
               OutLnError e,
               OutLnTraceback e,
               OutLn ''-------------------------------------''])
       \<and> (\<not> is_Exception e \<longrightarrow> console (snd (snd (run E f args kw (b, p)))) = console p)"
  by (simp add: run_raises [OF assms])

lemma raising_f_arg_data:
  "get_arg_data test_env raising_f [VInt 3] [] =
     Inr (''{args:{default:<default>,x:+111,},func:<f>,}'',
          JObj [(''func'', JStr ''f''),
                (''args'', JObj [(''default'', JStr ''default''), (''x'', JNum 3)])])"
  by code_simp

lemma interrupted_f_arg_data:
  "get_arg_data test_env interrupted_f [VInt 3] [] =
     Inr (''{args:{default:<default>,x:+111,},func:<f>,}'',
          JObj [(''func'', JStr ''f''),
                (''args'', JObj [(''default'', JStr ''default''), (''x'', JNum 3)])])"
  by code_simp

theorem run_failure_witness:
  "returned (body raising_f [VInt 3] []) = Inl (Raised ExceptionSubclass ''ValueError'' ''boom'')
   \<and> exists test_env raising_f [VInt 3] [] Benchmark_init = Inr False
   \<and> fst (run test_env raising_f [VInt 3] [] (Benchmark_init, process0))
       = Inl (Raised ExceptionSubclass ''ValueError'' ''boom'')
   \<and> fst (snd (run test_env raising_f [VInt 3] [] (Benchmark_init, process0))) = Benchmark_init
   \<and> exists test_env raising_f [VInt 3] []
        (fst (snd (run test_env raising_f [VInt 3] [] (Benchmark_init, process0)))) = Inr False
   \<and> console (snd (snd (run test_env raising_f [VInt 3] [] (Benchmark_init, process0)))) =
       [OutLn [],
        OutLn ''Exception while running benchmark.'',
        OutLn ''====================================='',
        OutLnYaml (JObj [(''func'', JStr ''f''),
                         (''args'', JObj [(''default'', JStr ''default''), (''x'', JNum 3)])]),
        OutLn ''-------------------------------------'',
        OutLnError (Raised ExceptionSubclass ''ValueError'' ''boom''),
        OutLnTraceback (Raised ExceptionSubclass ''ValueError'' ''boom''),
        OutLn ''-------------------------------------'']
   \<and> returned (body interrupted_f [VInt 3] [])
       = Inl (Raised BaseExceptionOnly ''KeyboardInterrupt'' [])
   \<and> fst (run test_env interrupted_f [VInt 3] [] (r1_benchmark, process0))
       = Inl (Raised BaseExceptionOnly ''KeyboardInterrupt'' [])
   \<and> fst (snd (run test_env interrupted_f [VInt 3] [] (r1_benchmark, process0))) = r1_benchmark
   \<and> console (snd (snd (run test_env interrupted_f [VInt 3] [] (r1_benchmark, process0)))) = []"
proof -
  have r: "returned (body raising_f [VInt 3] []) = Inl (Raised ExceptionSubclass ''ValueError'' ''boom'')"
    by (simp add: raising_f_def)
  have e: "exists test_env raising_f [VInt 3] [] Benchmark_init = Inr False"
    by code_simp
  have c: "console process0 = []"
    by (simp add: process0_def)
  have ri: "returned (body interrupted_f [VInt 3] [])
       = Inl (Raised BaseExceptionOnly ''KeyboardInterrupt'' [])"
    by (simp add: interrupted_f_def)
  from run_failure [OF raising_f_arg_data r, of Benchmark_init process0] r e c
  have 1: "fst (run test_env raising_f [VInt 3] [] (Benchmark_init, process0))
       = Inl (Raised ExceptionSubclass ''ValueError'' ''boom'')
   \<and> fst (snd (run test_env raising_f [VInt 3] [] (Benchmark_init, process0))) = Benchmark_init
   \<and> exists test_env raising_f [VInt 3] []
        (fst (snd (run test_env raising_f [VInt 3] [] (Benchmark_init, process0)))) = Inr False
   \<and> console (snd (snd (run test_env raising_f [VInt 3] [] (Benchmark_init, process0)))) =
       [OutLn [],
        OutLn ''Exception while running benchmark.'',
        OutLn ''====================================='',
        OutLnYaml (JObj [(''func'', JStr ''f''),
                         (''args'', JObj [(''default'', JStr ''default''), (''x'', JNum 3)])]),
        OutLn ''-------------------------------------'',
        OutLnError (Raised ExceptionSubclass ''ValueError'' ''boom''),
        OutLnTraceback (Raised ExceptionSubclass ''ValueError'' ''boom''),
        OutLn ''-------------------------------------'']"
    by simp
  from run_failure [OF interrupted_f_arg_data ri, of r1_benchmark process0] c
  have 2: "fst (run test_env interrupted_f [VInt 3] [] (r1_benchmark, process0))
       = Inl (Raised BaseExceptionOnly ''KeyboardInterrupt'' [])
   \<and> fst (snd (run test_env interrupted_f [VInt 3] [] (r1_benchmark, process0))) = r1_benchmark
   \<and> console (snd (snd (run test_env interrupted_f [VInt 3] [] (r1_benchmark, process0)))) = []"
    by simp
  from r e ri 1 2 show ?thesis by (intro conjI) blast+
qed

text \<open>
  The claim C1 fails for an exception that does not derive from \<open>Exception\<close>: the
  computation raises \<open>KeyboardInterrupt\<close>, \<open>run\<close> raises it too, and nothing is printed.
\<close>

theorem run_interrupted_counterexample:
  "returned (body interrupted_f [VInt 3] []) = Inl (Raised BaseExceptionOnly ''KeyboardInterrupt'' [])
   \<and> fst (run test_env interrupted_f [VInt 3] [] (Benchmark_init, process0))
       = Inl (Raised BaseExceptionOnly ''KeyboardInterrupt'' [])
   \<and> console (snd (snd (run test_env interrupted_f [VInt 3] [] (Benchmark_init, process0)))) = []"
  by code_simp

text \<open>
  C7: after a run whose computation returns, the benchmark holds one more Entry; its
  result record has the returned value, the timestamp of the clock at invocation, the
  time the computation took, and the text it wrote to standard output and standard
  error; the console receives the progress dot and nothing of that text.
\<close>

theorem run_stores_result:
  assumes "get_arg_data E f args kw = Inr (fingp, arg_data)"
      and "returned (body f args kw) = Inr result"
  shows "fst (run E f args kw (b, p)) = Inr ()
       \<and> iter (fst (snd (run E f args kw (b, p)))) = iter b @
           [\<lparr>entry_fingerprint = fingp, entry_parameters = arg_data,
             entry_result = JObj [(''result'', to_json result),
                                  (''timestamp'', JStr (isoformat E (clock p))),
                                  (''runtime'', JNum (int (duration (body f args kw)))),
                                  (''stdout'', JStr (stdout_text (body f args kw))),
                                  (''stderr'', JStr (stderr_text (body f args kw)))]\<rparr>]
       \<and> console (snd (snd (run E f args kw (b, p)))) = console p @ [Out ''.'']"
  by (simp add: run_returns [OF assms] iter_def db_iter_def)

lemma example_f_arg_data:
  "get_arg_data test_env example_f [VInt 1] [(''_test'', VNone)] =
     Inr (''{args:{default:<default>,x:+1,},func:<f>,}'',
          JObj [(''func'', JStr ''f''),
                (''args'', JObj [(''default'', JStr ''default''), (''x'', JNum 1)])])"
  by code_simp

theorem run_stores_result_witness:
  "returned (body example_f [VInt 1] [(''_test'', VNone)])
     = Inr (VDict [(''r1'', VInt 1), (''r2'', VStr ''test'')])
   \<and> fst (run test_env example_f [VInt 1] [(''_test'', VNone)] (Benchmark_init, process0)) = Inr ()
   \<and> iter (fst (snd (run test_env example_f [VInt 1] [(''_test'', VNone)] (Benchmark_init, process0))))
       = [\<lparr>entry_fingerprint = ''{args:{default:<default>,x:+1,},func:<f>,}'',
           entry_parameters = JObj [(''func'', JStr ''f''),
                (''args'', JObj [(''default'', JStr ''default''), (''x'', JNum 1)])],
           entry_result = JObj [(''result'', JObj [(''r1'', JNum 1), (''r2'', JStr ''test'')]),
                                (''timestamp'', JStr ''ttt''),
                                (''runtime'', JNum 7),
                                (''stdout'', JStr ''printed''),
                                (''stderr'', JStr [])]\<rparr>]
   \<and> console (snd (snd (run test_env example_f [VInt 1] [(''_test'', VNone)]
        (Benchmark_init, process0)))) = [Out ''.'']"
proof -
  have r: "returned (body example_f [VInt 1] [(''_test'', VNone)])
     = Inr (VDict [(''r1'', VInt 1), (''r2'', VStr ''test'')])"
    by (simp add: example_f_def)
  have b: "body example_f [VInt 1] [(''_test'', VNone)] =
      \<lparr>returned = Inr (VDict [(''r1'', VInt 1), (''r2'', VStr ''test'')]),
                   stdout_text = ''printed'', stderr_text = [], duration = 7\<rparr>"
    by (simp add: example_f_def)
  have i: "iter Benchmark_init = []"
    by (simp add: iter_def db_iter_def Benchmark_init_def)
  have t: "isoformat test_env (clock process0) = ''ttt''"
    by (simp add: test_env_def process0_def eval_nat_numeral)
  have c: "console process0 = []"
    by (simp add: process0_def)
  from run_stores_result [OF example_f_arg_data r, of Benchmark_init process0] r
  show ?thesis by (simp add: b i t c)
qed

text \<open>
  C2: \<open>add\<close> leaves benchmark and process untouched when \<open>exists\<close> is true, and is
  \<open>run\<close> when \<open>exists\<close> is false. After an \<open>add\<close> that did not raise, \<open>exists\<close> is true
  for the same call and for every call of the callable whose serialized parameter record
  is value-equal (equal up to the order of keys); a second \<open>add\<close> with such arguments
  changes neither the benchmark nor the process, so the computation is not called again.
\<close>

theorem add_idempotent:
  assumes "fst (add E f args kw (b, p)) = Inr ()"
      and "get_arg_data E f args kw = Inr (fingp, arg_data)"
      and "get_arg_data E f args2 kw2 = Inr (fingp2, arg_data2)"
      and "canon arg_data2 = canon arg_data"
  shows "(exists E f args kw b = Inr True \<longrightarrow> add E f args kw (b, p) = (Inr (), b, p))
       \<and> (exists E f args kw b = Inr False \<longrightarrow>
            add E f args kw (b, p) = run E f args kw (b, p)
            \<and> calls (snd (snd (add E f args kw (b, p)))) = calls p @ [(func_name f, args, kw)]
            \<and> length (iter (fst (snd (add E f args kw (b, p))))) = Suc (length (iter b)))
       \<and> exists E f args kw (fst (snd (add E f args kw (b, p)))) = Inr True
       \<and> exists E f args2 kw2 (fst (snd (add E f args kw (b, p)))) = Inr True
       \<and> add E f args2 kw2 (snd (add E f args kw (b, p))) = (Inr (), snd (add E f args kw (b, p)))"
proof -
  let ?s1 = "snd (add E f args kw (b, p))"
  have 1: "exists E f args kw b = Inr True \<longrightarrow> add E f args kw (b, p) = (Inr (), b, p)"
    by (simp add: add_found)
  have 2: "exists E f args kw b = Inr False \<longrightarrow>
            add E f args kw (b, p) = run E f args kw (b, p)
            \<and> calls (snd ?s1) = calls p @ [(func_name f, args, kw)]
            \<and> length (iter (fst ?s1)) = Suc (length (iter b))"
  proof
    assume "exists E f args kw b = Inr False"
    then have eq: "add E f args kw (b, p) = run E f args kw (b, p)"
      by (rule add_not_found)
    show "add E f args kw (b, p) = run E f args kw (b, p)
            \<and> calls (snd ?s1) = calls p @ [(func_name f, args, kw)]
            \<and> length (iter (fst ?s1)) = Suc (length (iter b))"
    proof (cases "returned (body f args kw)")
      case (Inl e)
      from assms(1) eq run_raises [OF assms(2) Inl, of b p] show ?thesis by simp
    next
      case (Inr result)
      from eq run_returns [OF assms(2) Inr, of b p] show ?thesis
        by (simp add: iter_def db_iter_def)
    qed
  qed
  have 3: "exists E f args kw (fst ?s1) = Inr True"
    by (rule exists_after_add [OF assms(1)])
  have "fingp2 = fingp"
    using get_arg_data_fingerprint [OF assms(2)] get_arg_data_fingerprint [OF assms(3)] assms(4)
    by simp
  with 3 have 4: "exists E f args2 kw2 (fst ?s1) = Inr True"
    by (simp add: exists_Inr [OF assms(2)] exists_Inr [OF assms(3)])
  have 5: "add E f args2 kw2 ?s1 = (Inr (), ?s1)"
    using add_found [OF 4, of "snd ?s1"] by simp
  from 1 2 3 4 5 show ?thesis by blast
qed

lemma example_f_arg_data_keywords:
  "get_arg_data test_env example_f [] [(''default'', VStr ''default''), (''x'', VInt 1)] =
     Inr (''{args:{default:<default>,x:+1,},func:<f>,}'',
          JObj [(''func'', JStr ''f''),
                (''args'', JObj [(''default'', JStr ''default''), (''x'', JNum 1)])])"
  by code_simp

theorem add_idempotent_witness:
  "fst (add test_env example_f [VInt 1] [(''_test'', VNone)] (Benchmark_init, process0)) = Inr ()
   \<and> exists test_env example_f [VInt 1] [(''_test'', VNone)] Benchmark_init = Inr False
   \<and> calls (snd (snd (add test_env example_f [VInt 1] [(''_test'', VNone)]
        (Benchmark_init, process0)))) = [(''f'', [VInt 1], [(''_test'', VNone)])]
   \<and> length (iter (fst (snd (add test_env example_f [VInt 1] [(''_test'', VNone)]
        (Benchmark_init, process0))))) = 1
   \<and> exists test_env example_f [VInt 1] [(''_test'', VNone)]
        (fst (snd (add test_env example_f [VInt 1] [(''_test'', VNone)]
          (Benchmark_init, process0)))) = Inr True
   \<and> exists test_env example_f [] [(''default'', VStr ''default''), (''x'', VInt 1)]
        (fst (snd (add test_env example_f [VInt 1] [(''_test'', VNone)]
          (Benchmark_init, process0)))) = Inr True
   \<and> add test_env example_f [] [(''default'', VStr ''default''), (''x'', VInt 1)]
        (snd (add test_env example_f [VInt 1] [(''_test'', VNone)] (Benchmark_init, process0)))
       = (Inr (), snd (add test_env example_f [VInt 1] [(''_test'', VNone)]
            (Benchmark_init, process0)))
   \<and> exists test_env example_f [VInt 1] [] f1_benchmark = Inr True
   \<and> add test_env example_f [VInt 1] [] (f1_benchmark, process0)
       = (Inr (), f1_benchmark, process0)"
proof -
  have a: "fst (add test_env example_f [VInt 1] [(''_test'', VNone)] (Benchmark_init, process0))
      = Inr ()"
    by code_simp
  have a1: "fst (add test_env example_f [VInt 1] [] (f1_benchmark, process0)) = Inr ()"
    by code_simp
  have e1: "exists test_env example_f [VInt 1] [] f1_benchmark = Inr True"
    by code_simp
  have g1: "get_arg_data test_env example_f [VInt 1] [] =
     Inr (''{args:{default:<default>,x:+1,},func:<f>,}'',
          JObj [(''func'', JStr ''f''),
                (''args'', JObj [(''default'', JStr ''default''), (''x'', JNum 1)])])"
    by code_simp
  from add_idempotent [OF a1 g1 g1 refl] e1
  have 4: "add test_env example_f [VInt 1] [] (f1_benchmark, process0)
       = (Inr (), f1_benchmark, process0)"
    by blast
  have e: "exists test_env example_f [VInt 1] [(''_test'', VNone)] Benchmark_init = Inr False"
    by code_simp
  have i: "iter Benchmark_init = []"
    by (simp add: iter_def db_iter_def Benchmark_init_def)
  have c: "calls process0 = []" "func_name example_f = ''f''"
    by (simp_all add: process0_def example_f_def)
  note th = add_idempotent [OF a example_f_arg_data example_f_arg_data_keywords refl]
  from th e have 2:
    "calls (snd (snd (add test_env example_f [VInt 1] [(''_test'', VNone)]
        (Benchmark_init, process0)))) = calls process0 @ [(func_name example_f, [VInt 1], [(''_test'', VNone)])]"
    "length (iter (fst (snd (add test_env example_f [VInt 1] [(''_test'', VNone)]
        (Benchmark_init, process0))))) = Suc (length (iter Benchmark_init))"
    by blast+
  from th have 3:
    "exists test_env example_f [VInt 1] [(''_test'', VNone)]
        (fst (snd (add test_env example_f [VInt 1] [(''_test'', VNone)]
          (Benchmark_init, process0)))) = Inr True"
    "exists test_env example_f [] [(''default'', VStr ''default''), (''x'', VInt 1)]
        (fst (snd (add test_env example_f [VInt 1] [(''_test'', VNone)]
          (Benchmark_init, process0)))) = Inr True"
    "add test_env example_f [] [(''default'', VStr ''default''), (''x'', VInt 1)]
        (snd (add test_env example_f [VInt 1] [(''_test'', VNone)] (Benchmark_init, process0)))
       = (Inr (), snd (add test_env example_f [VInt 1] [(''_test'', VNone)]
            (Benchmark_init, process0)))"
    by blast+
  from a e 2 3 e1 4 show ?thesis by (simp add: i c)
qed

subsection \<open>What \<open>_get_arg_data\<close> depends on\<close>

lemma filter_dict_set:
  "filter (\<lambda>kv. P (fst kv)) (dict_set k v d) =
     (if P k then dict_set k v (filter (\<lambda>kv. P (fst kv)) d) else filter (\<lambda>kv. P (fst kv)) d)"
  by (induction d) auto

lemma filter_dict_update:
  "filter (\<lambda>kv. P (fst kv)) (dict_update d e) =
     dict_update (filter (\<lambda>kv. P (fst kv)) d) (filter (\<lambda>kv. P (fst kv)) e)"
  by (induction d e rule: dict_update.induct) (simp_all add: filter_dict_set)

lemma get_arg_data_Inr:
  "bind (signature f) args kw = Inr A \<Longrightarrow>
   get_arg_data E f args kw =
     (let data = VDict [(''func'', VStr (func_name f)),
                        (''args'', VDict (dict_update
                           (filter (\<lambda>kv. \<not> startswith (fst kv) ''_'')
                              (List.map_filter
                                 (\<lambda>p. case param_default p of None \<Rightarrow> None
                                      | Some d \<Rightarrow> Some (param_name p, d)) (signature f)))
                           (filter (\<lambda>kv. \<not> startswith (fst kv) ''_'') A)))]
      in Inr (fingerprint E data, to_json data))"
  by (simp add: get_arg_data_def Let_def
      filter_dict_update [where P = "\<lambda>k. \<not> startswith k ''_''"])

lemma keys_dict_set: "fst ` set (dict_set k v d) = insert k (fst ` set d)"
  by (induction k v d rule: dict_set.induct) auto

lemma keys_dict_update: "fst ` set (dict_update d e) = fst ` set d \<union> fst ` set e"
  by (induction d e rule: dict_update.induct) (auto simp: keys_dict_set)

lemma keys_filter: "k \<in> fst ` set (filter (\<lambda>kv. P (fst kv)) d) \<Longrightarrow> P k"
  by auto

text \<open>
  C4: two calls of a callable whose bound arguments agree on every name that does not
  begin with an underscore get the same fingerprint and the same serialized parameter
  record, and no key of the record's \<open>args\<close> begins with an underscore.
\<close>

theorem underscore_parameters_excluded:
  assumes "bind (signature f) args kw = Inr A"
      and "bind (signature f) args' kw' = Inr A'"
      and "filter (\<lambda>kv. \<not> startswith (fst kv) ''_'') A'
             = filter (\<lambda>kv. \<not> startswith (fst kv) ''_'') A"
  shows "get_arg_data E f args' kw' = get_arg_data E f args kw
       \<and> (\<exists>fingp kvs. get_arg_data E f args kw =
              Inr (fingp, JObj [(''func'', JStr (func_name f)), (''args'', JObj kvs)])
            \<and> (\<forall>k \<in> fst ` set kvs. \<not> startswith k ''_''))"
proof (rule conjI)
  show "get_arg_data E f args' kw' = get_arg_data E f args kw"
    unfolding get_arg_data_Inr [OF assms(1)] get_arg_data_Inr [OF assms(2)] assms(3) ..
next
  let ?nu = "\<lambda>kv::string \<times> pyval. \<not> startswith (fst kv) ''_''"
  let ?D = "List.map_filter
              (\<lambda>p. case param_default p of None \<Rightarrow> None
                   | Some d \<Rightarrow> Some (param_name p, d)) (signature f)"
  let ?X = "dict_update (filter ?nu ?D) (filter ?nu A)"
  let ?kvs = "map (\<lambda>kv. (fst kv, to_json (snd kv))) ?X"
  have "fst ` set ?X = fst ` set (filter ?nu ?D) \<union> fst ` set (filter ?nu A)"
    by (rule keys_dict_update)
  then have nx: "\<forall>k \<in> fst ` set ?X. \<not> startswith k ''_''"
    using keys_filter [where P = "\<lambda>k. \<not> startswith k ''_''"] by blast
  have kx: "fst ` set ?kvs = fst ` set ?X"
    by (simp add: image_image)
  have keys: "\<forall>k \<in> fst ` set ?kvs. \<not> startswith k ''_''"
    unfolding kx by (rule nx)
  have eq: "get_arg_data E f args kw =
      Inr (fingerprint E (VDict [(''func'', VStr (func_name f)), (''args'', VDict ?X)]),
           JObj [(''func'', JStr (func_name f)), (''args'', JObj ?kvs)])"
    unfolding get_arg_data_Inr [OF assms(1)] Let_def by simp
  show "\<exists>fingp kvs. get_arg_data E f args kw =
              Inr (fingp, JObj [(''func'', JStr (func_name f)), (''args'', JObj kvs)])
            \<and> (\<forall>k \<in> fst ` set kvs. \<not> startswith k ''_'')"
    using eq keys by (intro exI conjI)
qed

lemma example_f_bind_test_None:
  "bind (signature example_f) [VInt 1] [(''_test'', VNone)] = Inr [(''x'', VInt 1), (''_test'', VNone)]"
  by code_simp

lemma example_f_bind_test_5:
  "bind (signature example_f) [VInt 1, VInt 5] [] = Inr [(''x'', VInt 1), (''_test'', VInt 5)]"
  by code_simp

theorem underscore_parameters_excluded_witness:
  "get_arg_data test_env example_f [VInt 1, VInt 5] []
     = get_arg_data test_env example_f [VInt 1] [(''_test'', VNone)]
   \<and> get_arg_data test_env example_f [VInt 1] [(''_test'', VNone)] =
       Inr (''{args:{default:<default>,x:+1,},func:<f>,}'',
            JObj [(''func'', JStr ''f''),
                  (''args'', JObj [(''default'', JStr ''default''), (''x'', JNum 1)])])"
proof -
  have "filter (\<lambda>kv. \<not> startswith (fst kv) ''_'') [(''x'', VInt 1), (''_test'', VInt 5)]
          = filter (\<lambda>kv. \<not> startswith (fst kv) ''_'') [(''x'', VInt 1), (''_test'', VNone)]"
    by (simp add: startswith_def)
  from underscore_parameters_excluded [OF example_f_bind_test_None example_f_bind_test_5 this,
      of test_env]
  show ?thesis by (simp add: example_f_arg_data)
qed

lemma get_arg_data_shape:
  "get_arg_data E f args kw = Inr (fingp, arg_data) \<Longrightarrow>
     \<exists>a. arg_data = JObj [(''func'', JStr (func_name f)), (''args'', a)]"
  by (auto simp: get_arg_data_def Let_def split: sum.splits)

lemma same_name_defaults_arguments:
  assumes "func_name h = func_name g"
      and "bind (signature g) args kw = Inr A"
      and "bind (signature h) args' kw' = Inr A'"
      and "filter (\<lambda>kv. \<not> startswith (fst kv) ''_'')
             (List.map_filter
                (\<lambda>p. case param_default p of None \<Rightarrow> None | Some d \<Rightarrow> Some (param_name p, d))
                (signature h))
           = filter (\<lambda>kv. \<not> startswith (fst kv) ''_'')
               (List.map_filter
                  (\<lambda>p. case param_default p of None \<Rightarrow> None | Some d \<Rightarrow> Some (param_name p, d))
                  (signature g))"
      and "filter (\<lambda>kv. \<not> startswith (fst kv) ''_'') A'
             = filter (\<lambda>kv. \<not> startswith (fst kv) ''_'') A"
  shows "get_arg_data E h args' kw' = get_arg_data E g args kw"
  unfolding get_arg_data_Inr [OF assms(2)] get_arg_data_Inr [OF assms(3)] assms(1,4,5) ..





subsection \<open>Binding: one call, several forms\<close>

lemma keys_map_of: "k \<in> fst ` set kw \<longleftrightarrow> map_of kw k \<noteq> None"
  by (simp add: map_of_eq_None_iff)

lemma bind_keywords_after_positional:
  "(case bind_positional ps [] kw A of
      Inl e \<Rightarrow> Inl e
    | Inr (A', rest) \<Rightarrow> bind_keywords rest kw A' kp) = bind_keywords ps kw A kp"
proof (cases ps)
  case Nil
  then show ?thesis by simp
next
  case (Cons p ps')
  then show ?thesis
    by (cases "map_of kw (param_name p)") (auto simp: keys_map_of)
qed

lemma dict_remove_append_new:
  "k \<notin> fst ` set kw \<Longrightarrow> dict_remove k (kw @ [(k, v)]) = kw"
  by (induction kw) (auto simp: dict_remove_def)

lemma map_add_new:
  "k \<notin> fst ` set kw \<Longrightarrow> ([k \<mapsto> v] ++ map_of kw) k = Some v"
  by (simp add: map_of_eq_None_iff [symmetric] map_add_def)

lemma map_of_append_new:
  "k \<notin> fst ` set kw \<Longrightarrow> map_of (kw @ [(k, v)]) k = Some v"
  by (simp add: map_add_new)

lemma positional_as_keyword_aux:
  assumes "length args < length sig"
      and "param_kind (sig ! length args) = POSITIONAL_OR_KEYWORD"
      and "\<forall>j < length args. param_kind (sig ! j) \<noteq> VAR_POSITIONAL"
      and "distinct (map param_name sig)"
      and "nm = param_name (sig ! length args)"
      and "nm \<notin> fst ` set kw"
  shows "(case bind_positional sig (args @ [v]) kw acc of
            Inl e \<Rightarrow> Inl e
          | Inr (A, rest) \<Rightarrow> bind_keywords rest kw A None)
       = (case bind_positional sig args (kw @ [(nm, v)]) acc of
            Inl e \<Rightarrow> Inl e
          | Inr (A, rest) \<Rightarrow> bind_keywords rest (kw @ [(nm, v)]) A None)"
  using assms
proof (induction args arbitrary: sig acc)
  case Nil
  then obtain p ps where sig: "sig = p # ps" by (cases sig) auto
  with Nil have k: "param_kind p = POSITIONAL_OR_KEYWORD" and n: "param_name p \<notin> fst ` set kw"
    and nm: "nm = param_name p"
    by auto
  have "(case bind_positional sig ([] @ [v]) kw acc of
            Inl e \<Rightarrow> Inl e
          | Inr (A, rest) \<Rightarrow> bind_keywords rest kw A None)
        = bind_keywords ps kw (dict_set (param_name p) v acc) None"
    using k n by (simp add: sig bind_keywords_after_positional)
  moreover have "(case bind_positional sig [] (kw @ [(nm, v)]) acc of
            Inl e \<Rightarrow> Inl e
          | Inr (A, rest) \<Rightarrow> bind_keywords rest (kw @ [(nm, v)]) A None)
        = bind_keywords ps kw (dict_set (param_name p) v acc) None"
    using k n by (simp add: sig nm map_add_new dict_remove_append_new)
  ultimately show ?case by simp
next
  case (Cons a as)
  then obtain q qs where sig: "sig = q # qs" by (cases sig) auto
  from Cons.prems sig have 1: "length as < length qs"
    and 2: "param_kind (qs ! length as) = POSITIONAL_OR_KEYWORD"
    and 3: "\<forall>j < length as. param_kind (qs ! j) \<noteq> VAR_POSITIONAL"
    and 4: "distinct (map param_name qs)"
    and 5: "nm = param_name (qs ! length as)"
    and q: "param_kind q \<noteq> VAR_POSITIONAL"
    by auto
  have "qs ! length as \<in> set qs"
    using 1 by simp
  with Cons.prems(4) sig 5 have ne: "param_name q \<noteq> nm"
    by auto
  note IH = Cons.IH [OF 1 2 3 4 5 Cons.prems(6)]
  show ?case
    using q ne IH by (simp add: sig)
qed

lemma positional_as_keyword:
  assumes "length args < length sig"
      and "param_kind (sig ! length args) = POSITIONAL_OR_KEYWORD"
      and "\<forall>j < length args. param_kind (sig ! j) \<noteq> VAR_POSITIONAL"
      and "distinct (map param_name sig)"
      and "param_name (sig ! length args) \<notin> fst ` set kw"
  shows "bind sig (args @ [v]) kw = bind sig args (kw @ [(param_name (sig ! length args), v)])"
  unfolding bind_def using positional_as_keyword_aux [OF assms(1-4) refl assms(5)] by simp


lemma explicit_default_positional:
  assumes "i < length sig"
      and "param_name (sig ! i) = nm"
      and "param_default (sig ! i) \<noteq> None"
      and "param_kind (sig ! i) = KEYWORD_ONLY
           \<or> (param_kind (sig ! i) = POSITIONAL_OR_KEYWORD \<and> length args \<le> i)"
      and "distinct (map param_name sig)"
  shows "bind_positional sig args (kw @ [(nm, d)]) acc = bind_positional sig args kw acc"
  using assms
proof (induction sig arbitrary: args i acc)
  case Nil
  then show ?case by simp
next
  case (Cons q qs)
  show ?case
  proof (cases i)
    case 0
    with Cons.prems show ?thesis
      by (cases args) auto
  next
    case (Suc i')
    with Cons.prems have "qs ! i' \<in> set qs" by simp
    with Cons.prems Suc have ne: "param_name q \<noteq> nm" by auto
    show ?thesis
    proof (cases args)
      case Nil
      with ne show ?thesis by simp
    next
      case (Cons a as)
      from Cons.prems Suc Cons
      have "bind_positional qs as (kw @ [(nm, d)]) (dict_set (param_name q) a acc)
              = bind_positional qs as kw (dict_set (param_name q) a acc)"
        by (intro Cons.IH [of i']) auto
      with ne Cons show ?thesis by simp
    qed
  qed
qed

lemma bind_positional_rest:
  "bind_positional sig args kw acc = Inr (A, rest) \<Longrightarrow>
     \<exists>pre. sig = pre @ rest \<and> fst ` set A \<subseteq> fst ` set acc \<union> param_name ` set pre"
proof (induction sig args kw acc rule: bind_positional.induct)
  case (1 kwargs arguments)
  then show ?case by simp
next
  case (2 p ps kwargs arguments)
  then show ?case
    by (auto split: if_splits intro: exI [of _ "[p]"] exI [of _ "[]"])
next
  case (3 a as kwargs arguments)
  then show ?case by simp
next
  case (4 p ps a as kwargs arguments)
  show ?case
  proof (cases "param_kind p = VAR_POSITIONAL")
    case True
    with "4.prems" have "A = dict_set (param_name p) (VTuple (a # as)) arguments" "rest = ps"
      by (auto split: if_splits)
    then show ?thesis
      by (intro exI [of _ "[p]"]) (simp add: keys_dict_set)
  next
    case False
    with "4.prems" have ok: "\<not> (param_kind p = VAR_KEYWORD \<or> param_kind p = KEYWORD_ONLY)"
      "\<not> (param_name p \<in> fst ` set kwargs \<and> param_kind p \<noteq> POSITIONAL_ONLY)"
      and r: "bind_positional ps as kwargs (dict_set (param_name p) a arguments) = Inr (A, rest)"
      by (auto split: if_splits)
    from "4.IH" [OF ok(1) False ok(2) r] obtain pre where
      "ps = pre @ rest"
      "fst ` set A \<subseteq> fst ` set (dict_set (param_name p) a arguments) \<union> param_name ` set pre"
      by blast
    then show ?thesis
      by (intro exI [of _ "p # pre"]) (auto simp: keys_dict_set)
  qed
qed

lemma explicit_default_in_rest:
  assumes "i < length sig"
      and "param_kind (sig ! i) = KEYWORD_ONLY
           \<or> (param_kind (sig ! i) = POSITIONAL_OR_KEYWORD \<and> length args \<le> i)"
      and "bind_positional sig args kw acc = Inr (A, rest)"
  shows "sig ! i \<in> set rest"
  using assms
proof (induction sig arbitrary: args i acc)
  case Nil
  then show ?case by simp
next
  case (Cons q qs)
  show ?case
  proof (cases i)
    case 0
    with Cons.prems show ?thesis
      by (cases args) (auto split: if_splits)
  next
    case (Suc i')
    show ?thesis
    proof (cases args)
      case Nil
      with Cons.prems Suc show ?thesis by (auto split: if_splits)
    next
      case (Cons a as)
      show ?thesis
      proof (cases "param_kind q = VAR_POSITIONAL")
        case True
        with Cons.prems Suc Cons show ?thesis by (auto split: if_splits)
      next
        case False
        with Cons.prems(3) Cons
        have r: "bind_positional qs as kw (dict_set (param_name q) a acc) = Inr (A, rest)"
          by (auto split: if_splits)
        from Cons.prems Suc Cons have "qs ! i' \<in> set rest"
          by (intro Cons.IH [OF _ _ r]) auto
        with Suc show ?thesis by simp
      qed
    qed
  qed
qed

lemma dict_remove_dict_set:
  "k \<noteq> nm \<Longrightarrow> dict_remove nm (dict_set k v X) = dict_set k v (dict_remove nm X)"
  by (induction k v X rule: dict_set.induct) (auto simp: dict_remove_def)

lemma dict_remove_dict_set_new:
  "nm \<notin> fst ` set X \<Longrightarrow> dict_remove nm (dict_set nm d X) = X"
  by (induction nm d X rule: dict_set.induct) (auto simp: dict_remove_def)

lemma set_dict_set: "set (dict_set k v X) \<subseteq> insert (k, v) (set X)"
  by (induction k v X rule: dict_set.induct) auto

lemma dict_set_new_value:
  "nm \<notin> fst ` set X \<Longrightarrow> (nm, v) \<in> set (dict_set nm d X) \<Longrightarrow> v = d"
  using set_dict_set [of nm d X] by force

lemma dict_set_other_value:
  "k \<noteq> nm \<Longrightarrow> (nm, v) \<in> set (dict_set k w X) \<Longrightarrow> (nm, v) \<in> set X"
  using set_dict_set [of k w X] by auto

lemma map_add_other: "k \<noteq> nm \<Longrightarrow> ([nm \<mapsto> d] ++ m) k = m k"
  by (simp add: map_add_def split: option.splits)

lemma explicit_default_keywords_after:
  assumes "A = dict_remove nm A'"
      and "\<forall>v. (nm, v) \<in> set A' \<longrightarrow> v = d"
      and "nm \<notin> param_name ` set ps"
      and "\<forall>q. kp = Some q \<longrightarrow> param_name q \<noteq> nm"
  shows "(\<forall>e. bind_keywords ps kw A' kp = Inl e \<longrightarrow> bind_keywords ps kw A kp = Inl e)
       \<and> (\<forall>F'. bind_keywords ps kw A' kp = Inr F' \<longrightarrow>
             bind_keywords ps kw A kp = Inr (dict_remove nm F')
             \<and> (\<forall>v. (nm, v) \<in> set F' \<longrightarrow> v = d))"
  using assms
proof (induction ps arbitrary: kw A A' kp)
  case Nil
  then show ?case
    by (auto simp: dict_remove_dict_set dest: dict_set_other_value split: option.splits)
next
  case (Cons q qs)
  from Cons.prems have ne: "param_name q \<noteq> nm" and qs: "nm \<notin> param_name ` set qs"
    by auto
  show ?case
  proof (cases "param_kind q = VAR_KEYWORD")
    case True
    from Cons.IH [OF Cons.prems(1,2) qs, of "Some q" kw] ne True show ?thesis by simp
  next
    case nvk: False
    show ?thesis
    proof (cases "param_kind q = VAR_POSITIONAL")
      case True
      from Cons.IH [OF Cons.prems(1,2) qs Cons.prems(4), of kw] nvk True show ?thesis by simp
    next
      case nvp: False
      show ?thesis
      proof (cases "map_of kw (param_name q)")
        case None
        from Cons.IH [OF Cons.prems(1,2) qs Cons.prems(4), of kw] nvk nvp None
        show ?thesis by simp
      next
        case (Some arg_val)
        have 1: "dict_set (param_name q) arg_val A
                   = dict_remove nm (dict_set (param_name q) arg_val A')"
          using ne Cons.prems(1) by (simp add: dict_remove_dict_set)
        have 2: "\<forall>v. (nm, v) \<in> set (dict_set (param_name q) arg_val A') \<longrightarrow> v = d"
          using ne Cons.prems(2) by (auto dest: dict_set_other_value)
        from Cons.IH [OF 1 2 qs Cons.prems(4), of "dict_remove (param_name q) kw"]
          nvk nvp Some
        show ?thesis by simp
      qed
    qed
  qed
qed

lemma explicit_default_keywords:
  assumes "p \<in> set ps"
      and "distinct (map param_name ps)"
      and "param_name p = nm"
      and "param_default p \<noteq> None"
      and "param_kind p = KEYWORD_ONLY \<or> param_kind p = POSITIONAL_OR_KEYWORD"
      and "nm \<notin> fst ` set kw"
      and "nm \<notin> fst ` set A"
      and "\<forall>q. kp = Some q \<longrightarrow> param_name q \<noteq> nm"
  shows "(\<forall>e. bind_keywords ps (kw @ [(nm, d)]) A kp = Inl e \<longrightarrow>
             bind_keywords ps kw A kp = Inl e)
       \<and> (\<forall>F'. bind_keywords ps (kw @ [(nm, d)]) A kp = Inr F' \<longrightarrow>
             bind_keywords ps kw A kp = Inr (dict_remove nm F')
             \<and> (\<forall>v. (nm, v) \<in> set F' \<longrightarrow> v = d))"
  using assms
proof (induction ps arbitrary: kw A kp)
  case Nil
  then show ?case by simp
next
  case (Cons q qs)
  show ?case
  proof (cases "q = p")
    case True
    with Cons.prems have qs: "nm \<notin> param_name ` set qs"
      by auto
    have l: "bind_keywords (q # qs) (kw @ [(nm, d)]) A kp
               = bind_keywords qs kw (dict_set nm d A) kp"
      using True Cons.prems(3,5,6) by (auto simp: map_add_new dict_remove_append_new)
    have "map_of kw nm = None"
      using Cons.prems(6) by (simp add: map_of_eq_None_iff)
    then have r: "bind_keywords (q # qs) kw A kp = bind_keywords qs kw A kp"
      using True Cons.prems(3,4,5) by auto
    have 1: "A = dict_remove nm (dict_set nm d A)"
      using Cons.prems(7) by (simp add: dict_remove_dict_set_new)
    have 2: "\<forall>v. (nm, v) \<in> set (dict_set nm d A) \<longrightarrow> v = d"
      using Cons.prems(7) by (auto dest: dict_set_new_value)
    from explicit_default_keywords_after [OF 1 2 qs Cons.prems(8), of kw]
    show ?thesis unfolding l r .
  next
    case False
    with Cons.prems have p: "p \<in> set qs" and dq: "distinct (map param_name qs)"
      by auto
    with Cons.prems have ne: "param_name q \<noteq> nm"
      by auto
    note IH = Cons.IH [OF p dq Cons.prems(3,4,5)]
    show ?thesis
    proof (cases "param_kind q = VAR_KEYWORD")
      case True
      from IH [OF Cons.prems(6,7), of "Some q"] ne True show ?thesis by simp
    next
      case nvk: False
      show ?thesis
      proof (cases "param_kind q = VAR_POSITIONAL")
        case True
        from IH [OF Cons.prems(6,7,8)] nvk True show ?thesis by simp
      next
        case nvp: False
        show ?thesis
        proof (cases "map_of kw (param_name q)")
          case None
          from IH [OF Cons.prems(6,7,8)] nvk nvp None ne
          show ?thesis by (simp add: map_add_other)
        next
          case (Some arg_val)
          have 1: "nm \<notin> fst ` set (dict_remove (param_name q) kw)"
            using Cons.prems(6) by (auto simp: dict_remove_def)
          have 2: "nm \<notin> fst ` set (dict_set (param_name q) arg_val A)"
            using Cons.prems(7) ne by (simp add: keys_dict_set)
          have 3: "dict_remove (param_name q) (kw @ [(nm, d)])
                     = dict_remove (param_name q) kw @ [(nm, d)]"
            using ne by (simp add: dict_remove_def)
          from IH [OF 1 2 Cons.prems(8)] nvk nvp Some ne
          show ?thesis by (simp add: map_add_other 3)
        qed
      qed
    qed
  qed
qed

lemma dict_set_same: "map_of X k = Some v \<Longrightarrow> dict_set k v X = X"
  by (induction k v X rule: dict_set.induct) (auto split: if_splits)

lemma map_of_dict_set:
  "map_of (dict_set k v X) k' = (if k' = k then Some v else map_of X k')"
  by (induction k v X rule: dict_set.induct) auto

lemma dict_update_ignore:
  "map_of X nm = Some d \<Longrightarrow> \<forall>v. (nm, v) \<in> set A' \<longrightarrow> v = d \<Longrightarrow>
     dict_update X A' = dict_update X (dict_remove nm A')"
proof (induction A' arbitrary: X)
  case Nil
  show ?case by (simp add: dict_remove_def)
next
  case (Cons kv e)
  obtain k v where kv: "kv = (k, v)" by (cases kv)
  from Cons.prems(2) have e: "\<forall>v. (nm, v) \<in> set e \<longrightarrow> v = d" by simp
  show ?case
  proof (cases "k = nm")
    case True
    with Cons.prems(2) kv have "v = d" by simp
    with True Cons.prems(1) have "dict_set k v X = X" by (simp add: dict_set_same)
    then have "dict_update X (kv # e) = dict_update X e" by (simp add: kv)
    also have "\<dots> = dict_update X (dict_remove nm e)" by (rule Cons.IH [OF Cons.prems(1) e])
    also have "dict_remove nm e = dict_remove nm (kv # e)" using True by (simp add: kv dict_remove_def)
    finally show ?thesis .
  next
    case False
    then have m: "map_of (dict_set k v X) nm = Some d"
      using Cons.prems(1) by (simp add: map_of_dict_set)
    have "dict_update X (kv # e) = dict_update (dict_set k v X) e" by (simp add: kv)
    also have "\<dots> = dict_update (dict_set k v X) (dict_remove nm e)" by (rule Cons.IH [OF m e])
    also have "\<dots> = dict_update X (dict_remove nm (kv # e))"
      using False by (simp add: kv dict_remove_def)
    finally show ?thesis .
  qed
qed

lemma map_of_defaults:
  "distinct (map param_name sig) \<Longrightarrow> p \<in> set sig \<Longrightarrow> param_default p = Some d \<Longrightarrow>
     map_of (List.map_filter
               (\<lambda>p. case param_default p of None \<Rightarrow> None | Some d \<Rightarrow> Some (param_name p, d))
               sig) (param_name p) = Some d"
proof (induction sig)
  case Nil
  then show ?case by simp
next
  case (Cons q qs)
  show ?case
  proof (cases "q = p")
    case True
    with Cons.prems show ?thesis by (simp add: List.map_filter_simps)
  next
    case False
    with Cons.prems have "param_name q \<noteq> param_name p" by auto
    with False Cons show ?thesis
      by (simp add: List.map_filter_simps split: option.splits)
  qed
qed

lemma explicit_default:
  assumes "i < length (signature f)"
      and "param_default (signature f ! i) = Some d"
      and "param_kind (signature f ! i) = KEYWORD_ONLY
           \<or> (param_kind (signature f ! i) = POSITIONAL_OR_KEYWORD \<and> length args \<le> i)"
      and "distinct (map param_name (signature f))"
      and "param_name (signature f ! i) \<notin> fst ` set kw"
  shows "get_arg_data E f args (kw @ [(param_name (signature f ! i), d)])
           = get_arg_data E f args kw"
proof -
  let ?sig = "signature f"
  let ?p = "?sig ! i"
  let ?nm = "param_name ?p"
  let ?kw' = "kw @ [(?nm, d)]"
  let ?D = "List.map_filter
              (\<lambda>p. case param_default p of None \<Rightarrow> None | Some d \<Rightarrow> Some (param_name p, d)) ?sig"
  have dn: "param_default ?p \<noteq> None" using assms(2) by simp
  have pos: "bind_positional ?sig args ?kw' [] = bind_positional ?sig args kw []"
    by (rule explicit_default_positional [OF assms(1) refl dn assms(3,4)])
  show ?thesis
  proof (cases "bind_positional ?sig args kw []")
    case (Inl e)
    with pos show ?thesis by (simp add: get_arg_data_def bind_def)
  next
    case (Inr r)
    obtain A0 rest where r: "r = (A0, rest)" by (cases r)
    note bp = Inr [unfolded r]
    from bind_positional_rest [OF bp] obtain pre where
      pre: "?sig = pre @ rest" and keys: "fst ` set A0 \<subseteq> param_name ` set pre"
      by auto
    have p_rest: "?p \<in> set rest"
      by (rule explicit_default_in_rest [OF assms(1,3) bp])
    from assms(4) pre have d_rest: "distinct (map param_name rest)"
      and disj: "param_name ` set pre \<inter> param_name ` set rest = {}"
      by (metis distinct_append map_append, metis distinct_append map_append set_map)
    from p_rest have "?nm \<in> param_name ` set rest" by (rule imageI)
    with disj have "?nm \<notin> param_name ` set pre" by blast
    with keys have nA: "?nm \<notin> fst ` set A0" by blast
    have kinds: "param_kind ?p = KEYWORD_ONLY \<or> param_kind ?p = POSITIONAL_OR_KEYWORD"
      using assms(3) by auto
    have mD: "map_of ?D ?nm = Some d"
      using assms(1,2,4) by (intro map_of_defaults) auto
    have "\<forall>q. (None::param option) = Some q \<longrightarrow> param_name q \<noteq> ?nm" by simp
    note kwd = explicit_default_keywords [OF p_rest d_rest refl dn kinds assms(5) nA this,
        of d]
    show ?thesis
    proof (cases "bind_keywords rest ?kw' A0 None")
      case (Inl e)
      with kwd have "bind_keywords rest kw A0 None = Inl e" by blast
      then have r: "bind ?sig args kw = Inl e"
        unfolding bind_def bp by simp
      have l: "bind ?sig args ?kw' = Inl e"
        unfolding bind_def pos bp using Inl by simp
      show ?thesis
        unfolding get_arg_data_def l r Let_def sum.case ..
    next
      case (Inr F')
      with kwd have F: "bind_keywords rest kw A0 None = Inr (dict_remove ?nm F')"
        and v: "\<forall>v. (?nm, v) \<in> set F' \<longrightarrow> v = d"
        by blast+
      have upd: "dict_update ?D F' = dict_update ?D (dict_remove ?nm F')"
        by (rule dict_update_ignore [OF mD v])
      have l: "bind ?sig args ?kw' = Inr F'"
        unfolding bind_def pos bp using Inr by simp
      have r: "bind ?sig args kw = Inr (dict_remove ?nm F')"
        unfolding bind_def bp using F by simp
      show ?thesis
        unfolding get_arg_data_def l r Let_def sum.case upd ..
    qed
  qed
qed

lemma bind_positional_keys:
  "fst ` set kw' = fst ` set kw \<Longrightarrow>
     bind_positional sig args kw' acc = bind_positional sig args kw acc"
  by (induction sig args kw acc rule: bind_positional.induct) simp_all

lemma sort_key_permutation:
  assumes "mset xs = mset ys" and "distinct (map f xs)"
  shows "sort_key f xs = sort_key f ys"
proof (rule sort_key_inj_key_eq)
  show "mset xs = mset (sort_key f ys)" using assms(1) by simp
  show "inj_on f (set xs)" using assms(2) by (simp add: distinct_map)
  show "sorted (map f (sort_key f ys))" by simp
qed

lemma canon_dict_permutation:
  assumes "mset kw' = mset kw" and "distinct (map fst kw)"
  shows "canon (to_json (VDict kw')) = canon (to_json (VDict kw))"
proof -
  let ?g = "\<lambda>kv::string \<times> pyval. (fst kv, canon (to_json (snd kv)))"
  have "mset (map ?g kw) = mset (map ?g kw')" using assms(1) by simp
  moreover have "distinct (map fst (map ?g kw))" using assms(2) by (simp add: comp_def)
  ultimately have "sort_key fst (map ?g kw) = sort_key fst (map ?g kw')"
    by (rule sort_key_permutation)
  then show ?thesis by (simp add: comp_def)
qed

lemma map_of_permutation:
  assumes "mset kw' = mset kw" and "distinct (map fst kw)"
  shows "map_of kw' = map_of kw"
proof -
  have "mset (map fst kw') = mset (map fst kw)" using assms(1) by simp
  then have "distinct (map fst kw')"
    using assms(2) mset_eq_imp_distinct_iff by blast
  moreover have "set kw' = set kw" using assms(1) by (rule mset_eq_setD)
  ultimately show ?thesis using assms(2) by (simp add: map_of_inject_set)
qed

lemma value_equal_dict_set:
  assumes "list_all2 (\<lambda>x y. fst x = fst y \<and> canon (to_json (snd x)) = canon (to_json (snd y))) A A'"
      and "canon (to_json v) = canon (to_json v')"
  shows "list_all2 (\<lambda>x y. fst x = fst y \<and> canon (to_json (snd x)) = canon (to_json (snd y)))
           (dict_set k v A) (dict_set k v' A')"
  using assms(1)
proof (induction rule: list_all2_induct)
  case Nil
  show ?case using assms(2) by simp
next
  case (Cons x xs y ys)
  then show ?case using assms(2) by (cases x; cases y) auto
qed

lemma value_equal_dict_update:
  assumes "list_all2 (\<lambda>x y. fst x = fst y \<and> canon (to_json (snd x)) = canon (to_json (snd y))) F F'"
      and "list_all2 (\<lambda>x y. fst x = fst y \<and> canon (to_json (snd x)) = canon (to_json (snd y))) X X'"
  shows "list_all2 (\<lambda>x y. fst x = fst y \<and> canon (to_json (snd x)) = canon (to_json (snd y)))
           (dict_update X F) (dict_update X' F')"
  using assms
proof (induction arbitrary: X X' rule: list_all2_induct)
  case Nil
  then show ?case by simp
next
  case (Cons x xs y ys)
  obtain k v where x: "x = (k, v)" by (cases x)
  obtain k' v' where y: "y = (k', v')" by (cases y)
  from Cons.hyps(1) x y have kk: "k' = k" and vv: "canon (to_json v) = canon (to_json v')"
    by simp_all
  have "list_all2 (\<lambda>x y. fst x = fst y \<and> canon (to_json (snd x)) = canon (to_json (snd y)))
          (dict_set k v X) (dict_set k v' X')"
    by (rule value_equal_dict_set [OF Cons.prems vv])
  from Cons.IH [OF this] show ?case by (simp add: x y kk)
qed

lemma value_equal_filter:
  assumes "list_all2 (\<lambda>x y. fst x = fst y \<and> canon (to_json (snd x)) = canon (to_json (snd y))) X X'"
  shows "list_all2 (\<lambda>x y. fst x = fst y \<and> canon (to_json (snd x)) = canon (to_json (snd y)))
           (filter (\<lambda>kv. P (fst kv)) X) (filter (\<lambda>kv. P (fst kv)) X')"
  using assms by (induction rule: list_all2_induct) auto

lemma value_equal_canon:
  assumes "list_all2 (\<lambda>x y. fst x = fst y \<and> canon (to_json (snd x)) = canon (to_json (snd y))) X X'"
  shows "canon (to_json (VDict X)) = canon (to_json (VDict X'))"
proof -
  have "map (\<lambda>kv. (fst kv, canon (to_json (snd kv)))) X
          = map (\<lambda>kv. (fst kv, canon (to_json (snd kv)))) X'"
    using assms by (induction rule: list_all2_induct) auto
  then show ?thesis by (simp add: comp_def)
qed

lemma value_equal_refl:
  "list_all2 (\<lambda>x y. fst x = fst y \<and> canon (to_json (snd x)) = canon (to_json (snd y))) X X"
  by (simp add: list_all2_same)

lemma bind_keywords_permutation:
  assumes "mset kw' = mset kw" and "distinct (map fst kw)"
      and "list_all2 (\<lambda>x y. fst x = fst y \<and> canon (to_json (snd x)) = canon (to_json (snd y))) A A'"
      and "bind_keywords ps kw A kp = Inr F"
  shows "\<exists>F'. bind_keywords ps kw' A' kp = Inr F'
           \<and> list_all2 (\<lambda>x y. fst x = fst y \<and> canon (to_json (snd x)) = canon (to_json (snd y))) F F'"
  using assms
proof (induction ps arbitrary: kw kw' A A' kp)
  case Nil
  show ?case
  proof (cases "kw = []")
    case True
    with Nil.prems show ?thesis by simp
  next
    case False
    with Nil.prems(1) have ne: "kw' \<noteq> []" by auto
    from False Nil.prems(4) obtain p where kp: "kp = Some p"
      by (cases kp) auto
    have "canon (to_json (VDict kw)) = canon (to_json (VDict kw'))"
      by (rule canon_dict_permutation [OF Nil.prems(1,2), symmetric])
    from value_equal_dict_set [OF Nil.prems(3) this, of "param_name p"] False ne kp Nil.prems(4)
    show ?thesis by auto
  qed
next
  case (Cons q qs)
  have m: "map_of kw' = map_of kw"
    by (rule map_of_permutation [OF Cons.prems(1,2)])
  show ?case
  proof (cases "param_kind q = VAR_KEYWORD")
    case True
    with Cons.prems(4) have "bind_keywords qs kw A (Some q) = Inr F" by simp
    from Cons.IH [OF Cons.prems(1,2,3) this] True show ?thesis by simp
  next
    case nvk: False
    show ?thesis
    proof (cases "param_kind q = VAR_POSITIONAL")
      case True
      with nvk Cons.prems(4) have "bind_keywords qs kw A kp = Inr F" by simp
      from Cons.IH [OF Cons.prems(1,2,3) this] nvk True show ?thesis by simp
    next
      case nvp: False
      show ?thesis
      proof (cases "map_of kw (param_name q)")
        case None
        with nvk nvp Cons.prems(4) have "bind_keywords qs kw A kp = Inr F"
          by (simp split: if_splits)
        from Cons.IH [OF Cons.prems(1,2,3) this] nvk nvp None Cons.prems(4) m
        show ?thesis by (simp split: if_splits)
      next
        case (Some arg_val)
        with nvk nvp Cons.prems(4) have po: "param_kind q \<noteq> POSITIONAL_ONLY"
          and r: "bind_keywords qs (dict_remove (param_name q) kw)
                    (dict_set (param_name q) arg_val A) kp = Inr F"
          by (simp_all split: if_splits)
        have 1: "mset (dict_remove (param_name q) kw') = mset (dict_remove (param_name q) kw)"
          using Cons.prems(1) by (simp add: dict_remove_def)
        have 2: "distinct (map fst (dict_remove (param_name q) kw))"
          using Cons.prems(2) by (simp add: dict_remove_def distinct_map_filter)
        have 3: "list_all2 (\<lambda>x y. fst x = fst y \<and> canon (to_json (snd x)) = canon (to_json (snd y)))
                   (dict_set (param_name q) arg_val A) (dict_set (param_name q) arg_val A')"
          by (rule value_equal_dict_set [OF Cons.prems(3) refl])
        from Cons.IH [OF 1 2 3 r] nvk nvp Some po m
        show ?thesis by simp
      qed
    qed
  qed
qed

lemma canon_call_data:
  "canon (to_json (VDict [(''func'', VStr n), (''args'', VDict X)]))
     = JObj (sort_key fst [(''func'', JStr n), (''args'', canon (to_json (VDict X)))])"
  by (simp only: to_json.simps canon.simps list.map fst_conv snd_conv)

lemma keyword_order:
  assumes "mset kw' = mset kw" and "distinct (map fst kw)"
      and "get_arg_data E f args kw = Inr (fingp, arg_data)"
  shows "\<exists>arg_data'. get_arg_data E f args kw' = Inr (fingp, arg_data')
           \<and> canon arg_data' = canon arg_data"
proof -
  let ?sig = "signature f"
  let ?D = "List.map_filter
              (\<lambda>p. case param_default p of None \<Rightarrow> None | Some d \<Rightarrow> Some (param_name p, d)) ?sig"
  let ?nu = "\<lambda>kv::string \<times> pyval. \<not> startswith (fst kv) ''_''"
  from assms(3) obtain F where b: "bind ?sig args kw = Inr F"
    by (cases "bind ?sig args kw") (auto simp: get_arg_data_def)
  then obtain A0 rest where bp: "bind_positional ?sig args kw [] = Inr (A0, rest)"
    and bk: "bind_keywords rest kw A0 None = Inr F"
    by (auto simp: bind_def split: sum.splits)
  have "fst ` set kw' = fst ` set kw"
    using mset_eq_setD [OF assms(1)] by simp
  then have "bind_positional ?sig args kw' [] = bind_positional ?sig args kw []"
    by (rule bind_positional_keys)
  with bp have bp': "bind_positional ?sig args kw' [] = Inr (A0, rest)"
    by simp
  from bind_keywords_permutation [OF assms(1,2) value_equal_refl bk]
  obtain F' where bk': "bind_keywords rest kw' A0 None = Inr F'"
    and FF: "list_all2 (\<lambda>x y. fst x = fst y \<and> canon (to_json (snd x)) = canon (to_json (snd y))) F F'"
    by blast
  have b': "bind ?sig args kw' = Inr F'"
    by (simp add: bind_def bp' bk')
  let ?X = "filter ?nu (dict_update ?D F)"
  let ?X' = "filter ?nu (dict_update ?D F')"
  have "list_all2 (\<lambda>x y. fst x = fst y \<and> canon (to_json (snd x)) = canon (to_json (snd y)))
          (dict_update ?D F) (dict_update ?D F')"
    by (rule value_equal_dict_update [OF FF value_equal_refl])
  then have "list_all2 (\<lambda>x y. fst x = fst y \<and> canon (to_json (snd x)) = canon (to_json (snd y)))
          ?X ?X'"
    by (rule value_equal_filter [where P = "\<lambda>k. \<not> startswith k ''_''"])
  then have c: "canon (to_json (VDict ?X)) = canon (to_json (VDict ?X'))"
    by (rule value_equal_canon)
  let ?data = "VDict [(''func'', VStr (func_name f)), (''args'', VDict ?X)]"
  let ?data' = "VDict [(''func'', VStr (func_name f)), (''args'', VDict ?X')]"
  have cd: "canon (to_json ?data') = canon (to_json ?data)"
    unfolding canon_call_data c ..
  have g: "get_arg_data E f args kw = Inr (fingerprint E ?data, to_json ?data)"
    unfolding get_arg_data_def b Let_def sum.case ..
  have g': "get_arg_data E f args kw' = Inr (fingerprint E ?data', to_json ?data')"
    unfolding get_arg_data_def b' Let_def sum.case ..
  have fp: "fingerprint E ?data' = fingerprint E ?data"
    unfolding fingerprint_def cd ..
  from g assms(3) have "Inr (fingerprint E ?data, to_json ?data) = (Inr (fingp, arg_data) :: exc + _)"
    by (rule trans [OF sym])
  then have 1: "fingp = fingerprint E ?data" and 2: "arg_data = to_json ?data"
    by blast+
  show ?thesis
  proof (intro exI conjI)
    show "get_arg_data E f args kw' = Inr (fingp, to_json ?data')"
      unfolding g' 1 fp ..
    show "canon (to_json ?data') = canon arg_data"
      unfolding 2 by (rule cd)
  qed
qed

lemma positional_default_aux:
  assumes "length args < length sig"
      and "param_kind (sig ! length args) = POSITIONAL_ONLY
           \<or> param_kind (sig ! length args) = POSITIONAL_OR_KEYWORD"
      and "param_default (sig ! length args) \<noteq> None"
      and "\<forall>j < length args. param_kind (sig ! j) \<noteq> VAR_POSITIONAL"
      and "distinct (map param_name sig)"
      and "nm = param_name (sig ! length args)"
      and "nm \<notin> fst ` set kw"
      and "nm \<notin> fst ` set acc"
  shows "(\<forall>e. (case bind_positional sig (args @ [d]) kw acc of
                  Inl e \<Rightarrow> Inl e
                | Inr (A, rest) \<Rightarrow> bind_keywords rest kw A None) = Inl e \<longrightarrow>
              (case bind_positional sig args kw acc of
                  Inl e \<Rightarrow> Inl e
                | Inr (A, rest) \<Rightarrow> bind_keywords rest kw A None) = Inl e)
       \<and> (\<forall>F'. (case bind_positional sig (args @ [d]) kw acc of
                  Inl e \<Rightarrow> Inl e
                | Inr (A, rest) \<Rightarrow> bind_keywords rest kw A None) = Inr F' \<longrightarrow>
              (case bind_positional sig args kw acc of
                  Inl e \<Rightarrow> Inl e
                | Inr (A, rest) \<Rightarrow> bind_keywords rest kw A None) = Inr (dict_remove nm F')
              \<and> (\<forall>v. (nm, v) \<in> set F' \<longrightarrow> v = d))"
  using assms
proof (induction args arbitrary: sig acc)
  case Nil
  then obtain p ps where sig: "sig = p # ps" by (cases sig) auto
  with Nil.prems have k: "param_kind p = POSITIONAL_ONLY \<or> param_kind p = POSITIONAL_OR_KEYWORD"
    and df: "param_default p \<noteq> None"
    and nm: "nm = param_name p" and n: "param_name p \<notin> fst ` set kw"
    and ps: "nm \<notin> param_name ` set ps"
    by auto
  have l: "(case bind_positional sig ([] @ [d]) kw acc of
              Inl e \<Rightarrow> Inl e
            | Inr (A, rest) \<Rightarrow> bind_keywords rest kw A None)
        = bind_keywords ps kw (dict_set nm d acc) None"
    using k n by (auto simp: sig nm bind_keywords_after_positional)
  have "map_of kw (param_name p) = None"
    using n by (simp add: map_of_eq_None_iff)
  then have r: "(case bind_positional sig [] kw acc of
              Inl e \<Rightarrow> Inl e
            | Inr (A, rest) \<Rightarrow> bind_keywords rest kw A None)
        = bind_keywords ps kw acc None"
    using k n df by (auto simp: sig)
  have 1: "acc = dict_remove nm (dict_set nm d acc)"
    using Nil.prems(8) by (simp add: dict_remove_dict_set_new)
  have 2: "\<forall>v. (nm, v) \<in> set (dict_set nm d acc) \<longrightarrow> v = d"
    using Nil.prems(8) by (auto dest: dict_set_new_value)
  have 3: "\<forall>q. (None::param option) = Some q \<longrightarrow> param_name q \<noteq> nm" by simp
  from explicit_default_keywords_after [OF 1 2 ps 3, of kw]
  show ?case unfolding l r .
next
  case (Cons a as)
  then obtain q qs where sig: "sig = q # qs" by (cases sig) auto
  from Cons.prems sig have 1: "length as < length qs"
    and 2: "param_kind (qs ! length as) = POSITIONAL_ONLY
            \<or> param_kind (qs ! length as) = POSITIONAL_OR_KEYWORD"
    and 3: "param_default (qs ! length as) \<noteq> None"
    and 4: "\<forall>j < length as. param_kind (qs ! j) \<noteq> VAR_POSITIONAL"
    and 5: "distinct (map param_name qs)"
    and 6: "nm = param_name (qs ! length as)"
    and q: "param_kind q \<noteq> VAR_POSITIONAL"
    by auto
  have "qs ! length as \<in> set qs"
    using 1 by simp
  with Cons.prems(5) sig 6 have ne: "param_name q \<noteq> nm"
    by auto
  with Cons.prems(8) have 8: "nm \<notin> fst ` set (dict_set (param_name q) a acc)"
    by (simp add: keys_dict_set)
  note IH = Cons.IH [OF 1 2 3 4 5 6 Cons.prems(7) 8]
  show ?case
    using q IH by (simp add: sig)
qed

lemma positional_default:
  assumes "length args < length (signature f)"
      and "param_kind (signature f ! length args) = POSITIONAL_ONLY
           \<or> param_kind (signature f ! length args) = POSITIONAL_OR_KEYWORD"
      and "param_default (signature f ! length args) = Some d"
      and "\<forall>j < length args. param_kind (signature f ! j) \<noteq> VAR_POSITIONAL"
      and "distinct (map param_name (signature f))"
      and "param_name (signature f ! length args) \<notin> fst ` set kw"
  shows "get_arg_data E f (args @ [d]) kw = get_arg_data E f args kw"
proof -
  let ?sig = "signature f"
  let ?nm = "param_name (?sig ! length args)"
  let ?D = "List.map_filter
              (\<lambda>p. case param_default p of None \<Rightarrow> None | Some d \<Rightarrow> Some (param_name p, d)) ?sig"
  have dn: "param_default (?sig ! length args) \<noteq> None" using assms(3) by simp
  have na: "?nm \<notin> fst ` set ([]::(string \<times> pyval) list)" by simp
  note aux = positional_default_aux [OF assms(1,2) dn assms(4,5) refl assms(6) na, of d]
  have mD: "map_of ?D ?nm = Some d"
    using assms(1,3,5) by (intro map_of_defaults) auto
  show ?thesis
  proof (cases "bind ?sig (args @ [d]) kw")
    case (Inl e)
    with aux have r: "bind ?sig args kw = Inl e"
      unfolding bind_def by blast
    show ?thesis
      unfolding get_arg_data_def Inl r Let_def sum.case ..
  next
    case (Inr F')
    with aux have r: "bind ?sig args kw = Inr (dict_remove ?nm F')"
      and v: "\<forall>v. (?nm, v) \<in> set F' \<longrightarrow> v = d"
      unfolding bind_def by blast+
    have upd: "dict_update ?D F' = dict_update ?D (dict_remove ?nm F')"
      by (rule dict_update_ignore [OF mD v])
    show ?thesis
      unfolding get_arg_data_def Inr r Let_def sum.case upd ..
  qed
qed

text \<open>
  C3: for a callable whose parameters have distinct names, the fingerprint of a call is
  the same (i) for keyword arguments given in any order, (ii) for an argument passed
  positionally or by keyword, where the parameter it binds to is positional-or-keyword
  and no \<open>*args\<close> parameter precedes it, (iii) for a defaulted argument omitted or
  supplied by keyword with its default value, and (iv) for a defaulted argument omitted
  or supplied positionally with its default value. Where one form raises, so does the
  other.
\<close>

theorem fingerprint_same_for_call_forms:
  assumes "distinct (map param_name (signature f))"
  shows "(\<forall>kw'. distinct (map fst kw) \<and> mset kw' = mset kw \<longrightarrow>
            call_fingerprint E f args kw' = call_fingerprint E f args kw)
       \<and> (\<forall>v. length args < length (signature f)
             \<and> param_kind (signature f ! length args) = POSITIONAL_OR_KEYWORD
             \<and> (\<forall>j < length args. param_kind (signature f ! j) \<noteq> VAR_POSITIONAL)
             \<and> param_name (signature f ! length args) \<notin> fst ` set kw \<longrightarrow>
            call_fingerprint E f (args @ [v]) kw
              = call_fingerprint E f args (kw @ [(param_name (signature f ! length args), v)]))
       \<and> (\<forall>i d. i < length (signature f)
             \<and> param_default (signature f ! i) = Some d
             \<and> (param_kind (signature f ! i) = KEYWORD_ONLY
                  \<or> (param_kind (signature f ! i) = POSITIONAL_OR_KEYWORD \<and> length args \<le> i))
             \<and> param_name (signature f ! i) \<notin> fst ` set kw \<longrightarrow>
            call_fingerprint E f args (kw @ [(param_name (signature f ! i), d)])
              = call_fingerprint E f args kw)
       \<and> (\<forall>d. length args < length (signature f)
             \<and> (param_kind (signature f ! length args) = POSITIONAL_ONLY
                  \<or> param_kind (signature f ! length args) = POSITIONAL_OR_KEYWORD)
             \<and> param_default (signature f ! length args) = Some d
             \<and> (\<forall>j < length args. param_kind (signature f ! j) \<noteq> VAR_POSITIONAL)
             \<and> param_name (signature f ! length args) \<notin> fst ` set kw \<longrightarrow>
            call_fingerprint E f (args @ [d]) kw = call_fingerprint E f args kw)"
proof (intro conjI allI impI)
  fix kw'
  assume h: "distinct (map fst kw) \<and> mset kw' = mset kw"
  then have d: "distinct (map fst kw)" and m: "mset kw' = mset kw" by simp_all
  have "mset (map fst kw') = mset (map fst kw)" using m by simp
  then have d': "distinct (map fst kw')"
    using d mset_eq_imp_distinct_iff by blast
  show "call_fingerprint E f args kw' = call_fingerprint E f args kw"
  proof (cases "get_arg_data E f args kw")
    case (Inr r)
    obtain fingp arg_data where r: "r = (fingp, arg_data)" by (cases r)
    from keyword_order [OF m d Inr [unfolded r]] Inr r
    show ?thesis by (auto simp: call_fingerprint_def)
  next
    case (Inl e)
    show ?thesis
    proof (cases "get_arg_data E f args kw'")
      case (Inr r')
      obtain fingp' arg_data' where r': "r' = (fingp', arg_data')" by (cases r')
      from keyword_order [OF m [symmetric] d' Inr [unfolded r']] Inl
      show ?thesis by auto
    next
      case Inl': (Inl e')
      with Inl show ?thesis by (simp add: call_fingerprint_def)
    qed
  qed
next
  fix v
  assume h: "length args < length (signature f)
             \<and> param_kind (signature f ! length args) = POSITIONAL_OR_KEYWORD
             \<and> (\<forall>j < length args. param_kind (signature f ! j) \<noteq> VAR_POSITIONAL)
             \<and> param_name (signature f ! length args) \<notin> fst ` set kw"
  then have "bind (signature f) (args @ [v]) kw
               = bind (signature f) args (kw @ [(param_name (signature f ! length args), v)])"
    using assms by (intro positional_as_keyword) simp_all
  then show "call_fingerprint E f (args @ [v]) kw
              = call_fingerprint E f args (kw @ [(param_name (signature f ! length args), v)])"
    by (simp add: call_fingerprint_def get_arg_data_def)
next
  fix i d
  assume h: "i < length (signature f)
             \<and> param_default (signature f ! i) = Some d
             \<and> (param_kind (signature f ! i) = KEYWORD_ONLY
                  \<or> (param_kind (signature f ! i) = POSITIONAL_OR_KEYWORD \<and> length args \<le> i))
             \<and> param_name (signature f ! i) \<notin> fst ` set kw"
  then have "get_arg_data E f args (kw @ [(param_name (signature f ! i), d)])
               = get_arg_data E f args kw"
    using assms by (intro explicit_default) simp_all
  then show "call_fingerprint E f args (kw @ [(param_name (signature f ! i), d)])
              = call_fingerprint E f args kw"
    by (simp add: call_fingerprint_def)
next
  fix d
  assume h: "length args < length (signature f)
             \<and> (param_kind (signature f ! length args) = POSITIONAL_ONLY
                  \<or> param_kind (signature f ! length args) = POSITIONAL_OR_KEYWORD)
             \<and> param_default (signature f ! length args) = Some d
             \<and> (\<forall>j < length args. param_kind (signature f ! j) \<noteq> VAR_POSITIONAL)
             \<and> param_name (signature f ! length args) \<notin> fst ` set kw"
  then have "get_arg_data E f (args @ [d]) kw = get_arg_data E f args kw"
    using assms by (intro positional_default) simp_all
  then show "call_fingerprint E f (args @ [d]) kw = call_fingerprint E f args kw"
    by (simp add: call_fingerprint_def)
qed

theorem fingerprint_same_for_call_forms_witness:
  "distinct (map param_name (signature example_g))
   \<and> distinct (map param_name (signature example_f))
   \<and> call_fingerprint test_env example_g [VInt 1] [(''b'', VInt 2), (''a'', VInt 3)]
       = call_fingerprint test_env example_g [VInt 1] [(''a'', VInt 3), (''b'', VInt 2)]
   \<and> call_fingerprint test_env example_g [VInt 1] [(''a'', VInt 3), (''b'', VInt 2)]
       = Some ''{args:{options:{a:+111,b:+11,},x:+1,},func:<g>,}''
   \<and> call_fingerprint test_env example_f [VInt 1] []
       = call_fingerprint test_env example_f [] [(''x'', VInt 1)]
   \<and> call_fingerprint test_env example_f [VInt 1] [(''default'', VStr ''default'')]
       = call_fingerprint test_env example_f [VInt 1] []
   \<and> call_fingerprint test_env example_f [VInt 1, VInt 2] []
       = call_fingerprint test_env example_f [VInt 1] []
   \<and> call_fingerprint test_env example_f [VInt 1] []
       = Some ''{args:{default:<default>,x:+1,},func:<f>,}''"
proof -
  have dg: "distinct (map param_name (signature example_g))"
    by (simp add: example_g_def)
  have df: "distinct (map param_name (signature example_f))"
    by (simp add: example_f_def example_signature_def)
  have sf: "signature example_f = example_signature"
    by (simp add: example_f_def)
  have 1: "call_fingerprint test_env example_g [VInt 1] [(''b'', VInt 2), (''a'', VInt 3)]
       = call_fingerprint test_env example_g [VInt 1] [(''a'', VInt 3), (''b'', VInt 2)]"
  proof -
    have "distinct (map fst [(''a'', VInt 3), (''b'', VInt 2)])
          \<and> mset [(''b'', VInt 2), (''a'', VInt 3)] = mset [(''a'', VInt 3), (''b'', VInt 2)]"
      by simp
    with fingerprint_same_for_call_forms
      [OF dg, where kw = "[(''a'', VInt 3), (''b'', VInt 2)]" and E = test_env and args = "[VInt 1]"]
    show ?thesis by blast
  qed
  have 2: "call_fingerprint test_env example_f ([] @ [VInt 1]) []
       = call_fingerprint test_env example_f []
           ([] @ [(param_name (signature example_f ! length ([]::pyval list)), VInt 1)])"
  proof -
    have "length ([]::pyval list) < length (signature example_f)
          \<and> param_kind (signature example_f ! length ([]::pyval list)) = POSITIONAL_OR_KEYWORD
          \<and> (\<forall>j < length ([]::pyval list). param_kind (signature example_f ! j) \<noteq> VAR_POSITIONAL)
          \<and> param_name (signature example_f ! length ([]::pyval list))
               \<notin> fst ` set ([]::(string \<times> pyval) list)"
      by (simp add: sf example_signature_def)
    with fingerprint_same_for_call_forms
      [OF df, where kw = "[]" and E = test_env and args = "[]"]
    show ?thesis by blast
  qed
  have 3: "call_fingerprint test_env example_f [VInt 1]
             ([] @ [(param_name (signature example_f ! 2), VStr ''default'')])
       = call_fingerprint test_env example_f [VInt 1] []"
  proof -
    have "2 < length (signature example_f)
          \<and> param_default (signature example_f ! 2) = Some (VStr ''default'')
          \<and> (param_kind (signature example_f ! 2) = KEYWORD_ONLY
               \<or> (param_kind (signature example_f ! 2) = POSITIONAL_OR_KEYWORD
                   \<and> length [VInt 1] \<le> 2))
          \<and> param_name (signature example_f ! 2) \<notin> fst ` set ([]::(string \<times> pyval) list)"
      by (simp add: sf example_signature_def)
    with fingerprint_same_for_call_forms
      [OF df, where kw = "[]" and E = test_env and args = "[VInt 1]"]
    show ?thesis by blast
  qed
  have 4: "call_fingerprint test_env example_f ([VInt 1] @ [VInt 2]) []
       = call_fingerprint test_env example_f [VInt 1] []"
  proof -
    have "length [VInt 1] < length (signature example_f)
          \<and> (param_kind (signature example_f ! length [VInt 1]) = POSITIONAL_ONLY
               \<or> param_kind (signature example_f ! length [VInt 1]) = POSITIONAL_OR_KEYWORD)
          \<and> param_default (signature example_f ! length [VInt 1]) = Some (VInt 2)
          \<and> (\<forall>j < length [VInt 1]. param_kind (signature example_f ! j) \<noteq> VAR_POSITIONAL)
          \<and> param_name (signature example_f ! length [VInt 1])
               \<notin> fst ` set ([]::(string \<times> pyval) list)"
      by (simp add: sf example_signature_def)
    with fingerprint_same_for_call_forms
      [OF df, where kw = "[]" and E = test_env and args = "[VInt 1]"]
    show ?thesis by blast
  qed
  from 4 have p4: "call_fingerprint test_env example_f [VInt 1, VInt 2] []
       = call_fingerprint test_env example_f [VInt 1] []"
    by simp
  have n: "param_name (signature example_f ! 0) = ''x''"
    "param_name (signature example_f ! 2) = ''default''"
    by (simp_all add: sf example_signature_def)
  have vg: "call_fingerprint test_env example_g [VInt 1] [(''a'', VInt 3), (''b'', VInt 2)]
       = Some ''{args:{options:{a:+111,b:+11,},x:+1,},func:<g>,}''"
    by code_simp
  have vf: "call_fingerprint test_env example_f [VInt 1] []
       = Some ''{args:{default:<default>,x:+1,},func:<f>,}''"
    by code_simp
  from 2 have p2: "call_fingerprint test_env example_f [VInt 1] []
       = call_fingerprint test_env example_f [] [(''x'', VInt 1)]"
    by (simp add: n)
  from 3 have p3: "call_fingerprint test_env example_f [VInt 1] [(''default'', VStr ''default'')]
       = call_fingerprint test_env example_f [VInt 1] []"
    by (simp add: n)
  from dg df 1 p2 p3 p4 vg vf show ?thesis by (intro conjI)
qed

subsection \<open>What iteration hands out\<close>

lemma load_extends:
  "load j h = (a, h') \<Longrightarrow> \<exists>ext. h' = h @ ext"
  "load_items js h = (as, h'') \<Longrightarrow> \<exists>ext. h'' = h @ ext"
  "load_fields kvs h = (kas, h''') \<Longrightarrow> \<exists>ext. h''' = h @ ext"
proof (induction j h and js h and kvs h arbitrary: a h' and as h'' and kas h'''
    rule: load_load_items_load_fields.induct)
  case (5 js h)
  obtain as h1 where l: "load_items js h = (as, h1)" by (cases "load_items js h")
  from "5.IH" [OF l] obtain ext where "h1 = h @ ext" by blast
  with "5.prems" l show ?case by auto
next
  case (6 kvs h)
  obtain kas h1 where l: "load_fields kvs h = (kas, h1)" by (cases "load_fields kvs h")
  from "6.IH" [OF l] obtain ext where "h1 = h @ ext" by blast
  with "6.prems" l show ?case by auto
next
  case (8 j js h)
  obtain a h1 where l1: "load j h = (a, h1)" by (cases "load j h")
  obtain as' h2 where l2: "load_items js h1 = (as', h2)" by (cases "load_items js h1")
  from "8.IH"(1) [OF l1] obtain e1 where e1: "h1 = h @ e1" by blast
  from "8.IH"(2) [OF l1 [symmetric] l2] obtain e2 where e2: "h2 = h1 @ e2" by blast
  from "8.prems" l1 l2 e1 e2 show ?case by auto
next
  case (10 k j kvs h)
  obtain a h1 where l1: "load j h = (a, h1)" by (cases "load j h")
  obtain kas' h2 where l2: "load_fields kvs h1 = (kas', h2)" by (cases "load_fields kvs h1")
  from "10.IH"(1) [OF l1] obtain e1 where e1: "h1 = h @ e1" by blast
  from "10.IH"(2) [OF l1 [symmetric] l2] obtain e2 where e2: "h2 = h1 @ e2" by blast
  from "10.prems" l1 l2 e1 e2 show ?case by auto
qed auto

lemma represents_frame:
  "represents n h a j \<Longrightarrow> represents n (h @ ext) a j"
  "represents_items n h as js \<Longrightarrow> represents_items n (h @ ext) as js"
  "represents_fields n h kas kvs \<Longrightarrow> represents_fields n (h @ ext) kas kvs"
  by (induction n h a j and n h as js and n h kas kvs
      rule: represents_represents_items_represents_fields.induct)
     (auto simp: nth_append split: obj.splits)

lemma represents_lower:
  "represents n h a j \<Longrightarrow> m \<le> n \<Longrightarrow> represents m h a j"
  "represents_items n h as js \<Longrightarrow> m \<le> n \<Longrightarrow> represents_items m h as js"
  "represents_fields n h kas kvs \<Longrightarrow> m \<le> n \<Longrightarrow> represents_fields m h kas kvs"
  by (induction n h a j and n h as js and n h kas kvs
      rule: represents_represents_items_represents_fields.induct)
     (auto split: obj.splits)

lemma load_represents:
  "load j h = (a, h') \<Longrightarrow> represents (length h) h' a j"
  "load_items js h = (as, h'') \<Longrightarrow> represents_items (length h) h'' as js"
  "load_fields kvs h = (kas, h''') \<Longrightarrow> represents_fields (length h) h''' kas kvs"
proof (induction j h and js h and kvs h arbitrary: a h' and as h'' and kas h'''
    rule: load_load_items_load_fields.induct)
  case (5 js h)
  obtain as h1 where l: "load_items js h = (as, h1)" by (cases "load_items js h")
  from load_extends(2) [OF l] have "length h \<le> length h1" by auto
  moreover from "5.IH" [OF l] have "represents_items (length h) (h1 @ [OList as]) as js"
    by (rule represents_frame)
  ultimately show ?case using "5.prems" l by auto
next
  case (6 kvs h)
  obtain kas h1 where l: "load_fields kvs h = (kas, h1)" by (cases "load_fields kvs h")
  from load_extends(3) [OF l] have "length h \<le> length h1" by auto
  moreover from "6.IH" [OF l] have "represents_fields (length h) (h1 @ [ODict kas]) kas kvs"
    by (rule represents_frame)
  ultimately show ?case using "6.prems" l by auto
next
  case (8 j js h)
  obtain a h1 where l1: "load j h = (a, h1)" by (cases "load j h")
  obtain as' h2 where l2: "load_items js h1 = (as', h2)" by (cases "load_items js h1")
  from load_extends(1) [OF l1] have le: "length h \<le> length h1" by auto
  from load_extends(2) [OF l2] obtain ext where ext: "h2 = h1 @ ext" by blast
  from "8.IH"(1) [OF l1] have "represents (length h) h2 a j"
    unfolding ext by (rule represents_frame)
  moreover from "8.IH"(2) [OF l1 [symmetric] l2] le
  have "represents_items (length h) h2 as' js"
    by (rule represents_lower)
  ultimately show ?case using "8.prems" l1 l2 by auto
next
  case (10 k j kvs h)
  obtain a h1 where l1: "load j h = (a, h1)" by (cases "load j h")
  obtain kas' h2 where l2: "load_fields kvs h1 = (kas', h2)" by (cases "load_fields kvs h1")
  from load_extends(1) [OF l1] have le: "length h \<le> length h1" by auto
  from load_extends(3) [OF l2] obtain ext where ext: "h2 = h1 @ ext" by blast
  from "10.IH"(1) [OF l1] have "represents (length h) h2 a j"
    unfolding ext by (rule represents_frame)
  moreover from "10.IH"(2) [OF l1 [symmetric] l2] le
  have "represents_fields (length h) h2 kas' kvs"
    by (rule represents_lower)
  ultimately show ?case using "10.prems" l1 l2 by auto
qed auto

lemma yielded_copy_represents:
  assumes "db_next_object e h = (entry, h1)" and "dict_copy entry h1 = (yielded, h2)"
  shows "represents (length h) h2 yielded (entry_json e)"
    and "\<exists>ext. h2 = h @ ext"
proof -
  let ?kvs = "[(''fingerprint'', JStr (entry_fingerprint e)),
               (''parameters'', entry_parameters e), (''result'', entry_result e)]"
  from assms(1) have l: "load (JObj ?kvs) h = (entry, h1)"
    by (simp add: db_next_object_def entry_json_def)
  from load_represents(1) [OF l] obtain kas where
    a: "entry < length h1" and o: "h1 ! entry = ODict kas"
    and f: "represents_fields (length h) h1 kas ?kvs"
    by (auto split: obj.splits)
  from load_extends(1) [OF l] obtain ext where ext: "h1 = h @ ext" by blast
  from assms(2) have y: "yielded = length h1" and h2: "h2 = h1 @ [h1 ! entry]"
    by (simp_all add: dict_copy_def)
  from f have "represents_fields (length h) h2 kas ?kvs"
    unfolding h2 by (rule represents_frame)
  with y h2 o ext show "represents (length h) h2 yielded (entry_json e)"
    by (simp add: entry_json_def)
  from h2 ext show "\<exists>ext. h2 = h @ ext" by simp
qed

lemma iter_entries_represents:
  "iter_entries es h = (as, h') \<Longrightarrow>
     list_all2 (represents (length h) h') as (map entry_json es) \<and> (\<exists>ext. h' = h @ ext)"
proof (induction es arbitrary: h as h')
  case Nil
  then show ?case by simp
next
  case (Cons e es)
  obtain entry h1 where n: "db_next_object e h = (entry, h1)"
    by (cases "db_next_object e h")
  obtain yielded h2 where c: "dict_copy entry h1 = (yielded, h2)"
    by (cases "dict_copy entry h1")
  obtain rest h3 where r: "iter_entries es h2 = (rest, h3)"
    by (cases "iter_entries es h2")
  from Cons.prems n c r have as: "as = yielded # rest" and h': "h' = h3"
    by simp_all
  from yielded_copy_represents [OF n c] obtain e2 where
    y: "represents (length h) h2 yielded (entry_json e)" and e2: "h2 = h @ e2"
    by blast
  from Cons.IH [OF r] obtain e3 where
    t: "list_all2 (represents (length h2) h3) rest (map entry_json es)" and e3: "h3 = h2 @ e3"
    by blast
  from y have 1: "represents (length h) h3 yielded (entry_json e)"
    unfolding e3 by (rule represents_frame)
  have "length h \<le> length h2" using e2 by simp
  with t have 2: "list_all2 (represents (length h) h3) rest (map entry_json es)"
    by (auto elim!: list_all2_mono intro: represents_lower)
  from 1 2 e2 e3 show ?case by (simp add: as h')
qed

text \<open>
  C6: from any heap, iteration yields one dictionary for every Entry of the store;
  each represents its Entry at every depth and consists of objects allocated during
  this iteration, and the objects that were there before are as they were. The heap
  is arbitrary, so this holds after any change of dictionaries yielded earlier: made
  at any address \<open>a\<close>, the change reaches neither the Entries of the store nor what
  the next iteration yields, which shares no object with the heap of the first.
\<close>

theorem iteration_yields_independent_copies:
  "list_all2 (represents (length h) (snd (iter_objects b h))) (fst (iter_objects b h))
     (map entry_json (iter b))
   \<and> take (length h) (snd (iter_objects b h)) = h
   \<and> list_all2
       (represents (length (snd (iter_objects b h)))
          (snd (iter_objects b ((snd (iter_objects b h))[a := x]))))
       (fst (iter_objects b ((snd (iter_objects b h))[a := x])))
       (map entry_json (iter b))"
proof -
  obtain as h' where i: "iter_objects b h = (as, h')"
    by (cases "iter_objects b h")
  then have ie: "iter_entries (db_iter (db b)) h = (as, h')"
    by (simp add: iter_objects_def)
  from iter_entries_represents [OF ie] obtain ext where
    1: "list_all2 (represents (length h) h') as (map entry_json (db_iter (db b)))"
    and ext: "h' = h @ ext"
    by blast
  obtain as2 h2 where i2: "iter_objects b (h'[a := x]) = (as2, h2)"
    by (cases "iter_objects b (h'[a := x])")
  then have ie2: "iter_entries (db_iter (db b)) (h'[a := x]) = (as2, h2)"
    by (simp add: iter_objects_def)
  from iter_entries_represents [OF ie2]
  have "list_all2 (represents (length (h'[a := x])) h2) as2 (map entry_json (db_iter (db b)))"
    by blast
  then have 2: "list_all2 (represents (length h') h2) as2 (map entry_json (db_iter (db b)))"
    by simp
  have 3: "take (length h) h' = h" using ext by simp
  have s: "snd (iter_objects b h) = h'" "fst (iter_objects b h) = as"
    "snd (iter_objects b (h'[a := x])) = h2" "fst (iter_objects b (h'[a := x])) = as2"
    by (simp_all add: i i2)
  show ?thesis
    unfolding s iter_def using 1 2 3 by (intro conjI)
qed

text \<open>
  Iterating three Entries from the empty heap yields the dictionaries at 5, 11 and 17.
  \<^verbatim>\<open>entry["result"]["r1"] = 6\<close> on the first of them changes the object at 3, and the
  dictionary at 5 then shows \<open>r1 = 6\<close>; the next iteration yields \<open>r1 = 1\<close> again,
  in new objects.
\<close>

theorem iteration_yields_independent_copies_witness:
  "fst (iter_objects r1_benchmark []) = [5, 11, 17]
   \<and> snd (iter_objects r1_benchmark []) ! 3 = ODict [(''r1'', 2)]
   \<and> represents 0 (snd (iter_objects r1_benchmark [])) 5 (entry_json (r1_entry ''a'' 1))
   \<and> represents 0 ((snd (iter_objects r1_benchmark []))[3 := ODict [(''r1'', 8)]]) 5
        (entry_json (r1_entry ''a'' 6))
   \<and> list_all2
        (represents (length (snd (iter_objects r1_benchmark [])))
           (snd (iter_objects r1_benchmark
              ((snd (iter_objects r1_benchmark []))[3 := ODict [(''r1'', 8)]]))))
        (fst (iter_objects r1_benchmark
              ((snd (iter_objects r1_benchmark []))[3 := ODict [(''r1'', 8)]])))
        (map entry_json [r1_entry ''a'' 1, r1_entry ''b'' 6, r1_entry ''c'' 10])
   \<and> length (snd (iter_objects r1_benchmark [])) = 18"
proof -
  have 1: "fst (iter_objects r1_benchmark []) = [5, 11, 17]"
    by code_simp
  have 2: "snd (iter_objects r1_benchmark []) ! 3 = ODict [(''r1'', 2)]"
    by code_simp
  have 3: "represents 0 (snd (iter_objects r1_benchmark [])) 5 (entry_json (r1_entry ''a'' 1))"
    by code_simp
  have 4: "represents 0 ((snd (iter_objects r1_benchmark []))[3 := ODict [(''r1'', 8)]]) 5
        (entry_json (r1_entry ''a'' 6))"
    by code_simp
  from iteration_yields_independent_copies [of "[]" r1_benchmark 3 "ODict [(''r1'', 8)]"]
  have 5: "list_all2
        (represents (length (snd (iter_objects r1_benchmark [])))
           (snd (iter_objects r1_benchmark
              ((snd (iter_objects r1_benchmark []))[3 := ODict [(''r1'', 8)]]))))
        (fst (iter_objects r1_benchmark
              ((snd (iter_objects r1_benchmark []))[3 := ODict [(''r1'', 8)]])))
        (map entry_json [r1_entry ''a'' 1, r1_entry ''b'' 6, r1_entry ''c'' 10])"
    by (simp add: iter_r1_benchmark)
  have 6: "length (snd (iter_objects r1_benchmark [])) = 18"
    by code_simp
  from 1 2 3 4 5 6 show ?thesis by (intro conjI)
qed

subsection \<open>Calls that do not bind\<close>

lemma too_many_positional:
  "length sig < length args \<Longrightarrow> VAR_POSITIONAL \<notin> param_kind ` set sig \<Longrightarrow>
     \<exists>e. bind_positional sig args kw acc = Inl e"
  by (induction sig args kw acc rule: bind_positional.induct) auto

lemma unexpected_keyword:
  "k \<in> fst ` set kw \<Longrightarrow> k \<notin> param_name ` set ps \<Longrightarrow> VAR_KEYWORD \<notin> param_kind ` set ps \<Longrightarrow>
     \<exists>e. bind_keywords ps kw A None = Inl e"
proof (induction ps arbitrary: kw A)
  case Nil
  then show ?case by auto
next
  case (Cons q qs)
  from Cons.prems have k: "k \<in> fst ` set (dict_remove (param_name q) kw)"
    by (force simp: dict_remove_def)
  from Cons.prems have qs: "k \<notin> param_name ` set qs" "VAR_KEYWORD \<notin> param_kind ` set qs"
    and nvk: "param_kind q \<noteq> VAR_KEYWORD"
    by auto
  from Cons.IH [OF Cons.prems(1) qs] Cons.IH [OF k qs] nvk
  show ?case by (auto split: option.splits)
qed

lemma required_in_rest:
  assumes "i < length sig" and "length args \<le> i"
      and "param_kind (sig ! i) \<noteq> VAR_POSITIONAL"
      and "bind_positional sig args kw acc = Inr (A, rest)"
  shows "sig ! i \<in> set rest"
  using assms
proof (induction sig arbitrary: args i acc)
  case Nil
  then show ?case by simp
next
  case (Cons q qs)
  show ?case
  proof (cases i)
    case 0
    with Cons.prems show ?thesis
      by (cases args) (auto split: if_splits)
  next
    case (Suc i')
    show ?thesis
    proof (cases args)
      case Nil
      with Cons.prems Suc show ?thesis by (auto split: if_splits)
    next
      case (Cons a as)
      show ?thesis
      proof (cases "param_kind q = VAR_POSITIONAL")
        case True
        with Cons.prems Suc Cons show ?thesis by (auto split: if_splits)
      next
        case False
        with Cons.prems(4) Cons
        have r: "bind_positional qs as kw (dict_set (param_name q) a acc) = Inr (A, rest)"
          by (auto split: if_splits)
        from Cons.prems Suc Cons have "qs ! i' \<in> set rest"
          by (intro Cons.IH [OF _ _ _ r]) auto
        with Suc show ?thesis by simp
      qed
    qed
  qed
qed

lemma missing_required_keywords:
  "p \<in> set ps \<Longrightarrow> param_default p = None \<Longrightarrow> param_kind p \<noteq> VAR_POSITIONAL \<Longrightarrow>
   param_kind p \<noteq> VAR_KEYWORD \<Longrightarrow> param_name p \<notin> fst ` set kw \<Longrightarrow>
     \<exists>e. bind_keywords ps kw A kp = Inl e"
proof (induction ps arbitrary: kw A kp)
  case Nil
  then show ?case by simp
next
  case (Cons q qs)
  show ?case
  proof (cases "q = p")
    case True
    from Cons.prems(5) have "map_of kw (param_name p) = None"
      by (simp add: map_of_eq_None_iff)
    with True Cons.prems show ?thesis by simp
  next
    case False
    with Cons.prems have p: "p \<in> set qs" by simp
    from Cons.prems(5) have k: "param_name p \<notin> fst ` set (dict_remove (param_name q) kw)"
      by (auto simp: dict_remove_def)
    from Cons.IH [OF p Cons.prems(2,3,4,5)] Cons.IH [OF p Cons.prems(2,3,4) k]
    show ?thesis by (auto split: option.splits)
  qed
qed

lemma bind_raises:
  shows "length sig < length args \<Longrightarrow> VAR_POSITIONAL \<notin> param_kind ` set sig \<Longrightarrow>
           \<exists>e. bind sig args kw = Inl e"
    and "k \<in> fst ` set kw \<Longrightarrow> k \<notin> param_name ` set sig \<Longrightarrow>
         VAR_KEYWORD \<notin> param_kind ` set sig \<Longrightarrow> \<exists>e. bind sig args kw = Inl e"
    and "i < length sig \<Longrightarrow> length args \<le> i \<Longrightarrow> param_default (sig ! i) = None \<Longrightarrow>
         param_kind (sig ! i) \<noteq> VAR_POSITIONAL \<Longrightarrow> param_kind (sig ! i) \<noteq> VAR_KEYWORD \<Longrightarrow>
         param_name (sig ! i) \<notin> fst ` set kw \<Longrightarrow> \<exists>e. bind sig args kw = Inl e"
proof -
  assume "length sig < length args" "VAR_POSITIONAL \<notin> param_kind ` set sig"
  from too_many_positional [OF this, of kw "[]"]
  show "\<exists>e. bind sig args kw = Inl e" by (auto simp: bind_def)
next
  assume k: "k \<in> fst ` set kw" "k \<notin> param_name ` set sig"
    and v: "VAR_KEYWORD \<notin> param_kind ` set sig"
  show "\<exists>e. bind sig args kw = Inl e"
  proof (cases "bind_positional sig args kw []")
    case (Inl e)
    then show ?thesis by (simp add: bind_def)
  next
    case (Inr r)
    obtain A rest where r: "r = (A, rest)" by (cases r)
    from bind_positional_rest [OF Inr [unfolded r]] obtain pre where "sig = pre @ rest"
      by blast
    with k v have "k \<notin> param_name ` set rest" "VAR_KEYWORD \<notin> param_kind ` set rest"
      by auto
    from unexpected_keyword [OF k(1) this, of A] Inr r
    show ?thesis by (auto simp: bind_def)
  qed
next
  assume i: "i < length sig" "length args \<le> i" and d: "param_default (sig ! i) = None"
    and kd: "param_kind (sig ! i) \<noteq> VAR_POSITIONAL" "param_kind (sig ! i) \<noteq> VAR_KEYWORD"
    and n: "param_name (sig ! i) \<notin> fst ` set kw"
  show "\<exists>e. bind sig args kw = Inl e"
  proof (cases "bind_positional sig args kw []")
    case (Inl e)
    then show ?thesis by (simp add: bind_def)
  next
    case (Inr r)
    obtain A rest where r: "r = (A, rest)" by (cases r)
    from required_in_rest [OF i kd(1) Inr [unfolded r]] have "sig ! i \<in> set rest" .
    from missing_required_keywords [OF this d kd n, of A None] Inr r
    show ?thesis by (auto simp: bind_def)
  qed
qed

text \<open>
  C9: when the arguments do not bind to the signature, \<open>exists\<close>, \<open>run\<close> and \<open>add\<close>
  raise the \<open>TypeError\<close> of \<open>bind\<close>; the benchmark and the process (console, clock,
  log of calls) are as before, so the callable was not called and nothing was stored.
  Binding fails, among others, for more positional arguments than parameters (without
  \<open>*args\<close>), for a keyword that names no parameter (without \<open>**kwargs\<close>), and for a
  parameter without default that receives no argument.
\<close>

theorem unbound_call_raises:
  "(\<forall>err. bind (signature f) args kw = Inl err \<longrightarrow>
       exists E f args kw b = Inl (TypeError err)
     \<and> run E f args kw (b, p) = (Inl (TypeError err), b, p)
     \<and> add E f args kw (b, p) = (Inl (TypeError err), b, p))
   \<and> (length (signature f) < length args
        \<and> VAR_POSITIONAL \<notin> param_kind ` set (signature f) \<longrightarrow>
       (\<exists>err. bind (signature f) args kw = Inl err))
   \<and> (\<forall>k. k \<in> fst ` set kw \<and> k \<notin> param_name ` set (signature f)
        \<and> VAR_KEYWORD \<notin> param_kind ` set (signature f) \<longrightarrow>
       (\<exists>err. bind (signature f) args kw = Inl err))
   \<and> (\<forall>i. i < length (signature f) \<and> length args \<le> i
        \<and> param_default (signature f ! i) = None
        \<and> param_kind (signature f ! i) \<noteq> VAR_POSITIONAL
        \<and> param_kind (signature f ! i) \<noteq> VAR_KEYWORD
        \<and> param_name (signature f ! i) \<notin> fst ` set kw \<longrightarrow>
       (\<exists>err. bind (signature f) args kw = Inl err))"
proof (intro conjI allI impI)
  fix err
  assume h: "bind (signature f) args kw = Inl err"
  show "exists E f args kw b = Inl (TypeError err)"
    by (simp add: exists_def get_arg_data_Inl [OF h])
  show "run E f args kw (b, p) = (Inl (TypeError err), b, p)"
    by (simp add: run_def get_arg_data_Inl [OF h])
  show "add E f args kw (b, p) = (Inl (TypeError err), b, p)"
    by (simp add: add_def exists_def get_arg_data_Inl [OF h])
next
  assume "length (signature f) < length args
        \<and> VAR_POSITIONAL \<notin> param_kind ` set (signature f)"
  then show "\<exists>err. bind (signature f) args kw = Inl err"
    by (intro bind_raises(1)) simp_all
next
  fix k
  assume "k \<in> fst ` set kw \<and> k \<notin> param_name ` set (signature f)
        \<and> VAR_KEYWORD \<notin> param_kind ` set (signature f)"
  then show "\<exists>err. bind (signature f) args kw = Inl err"
    by (intro bind_raises(2) [of k]) simp_all
next
  fix i
  assume "i < length (signature f) \<and> length args \<le> i
        \<and> param_default (signature f ! i) = None
        \<and> param_kind (signature f ! i) \<noteq> VAR_POSITIONAL
        \<and> param_kind (signature f ! i) \<noteq> VAR_KEYWORD
        \<and> param_name (signature f ! i) \<notin> fst ` set kw"
  then show "\<exists>err. bind (signature f) args kw = Inl err"
    by (intro bind_raises(3) [of i]) simp_all
qed

theorem unbound_call_raises_witness:
  "bind (signature example_f) [] [(''default'', VInt 1)] = Inl (MissingRequired ''x'')
   \<and> bind (signature example_f) [VInt 1, VInt 2, VInt 3, VInt 4] [] = Inl TooManyPositional
   \<and> bind (signature example_f) [VInt 1] [(''y'', VInt 2)] = Inl (UnexpectedKeyword ''y'')
   \<and> exists test_env example_f [] [(''default'', VInt 1)] r1_benchmark
       = Inl (TypeError (MissingRequired ''x''))
   \<and> run test_env example_f [] [(''default'', VInt 1)] (r1_benchmark, process0)
       = (Inl (TypeError (MissingRequired ''x'')), r1_benchmark, process0)
   \<and> add test_env example_f [] [(''default'', VInt 1)] (r1_benchmark, process0)
       = (Inl (TypeError (MissingRequired ''x'')), r1_benchmark, process0)
   \<and> run test_env example_f [VInt 1, VInt 2, VInt 3, VInt 4] [] (r1_benchmark, process0)
       = (Inl (TypeError TooManyPositional), r1_benchmark, process0)
   \<and> run test_env example_f [VInt 1] [(''y'', VInt 2)] (r1_benchmark, process0)
       = (Inl (TypeError (UnexpectedKeyword ''y'')), r1_benchmark, process0)
   \<and> length (signature example_f) < length [VInt 1, VInt 2, VInt 3, VInt 4]
   \<and> VAR_POSITIONAL \<notin> param_kind ` set (signature example_f)
   \<and> ''y'' \<in> fst ` set [(''y'', VInt 2)]
   \<and> ''y'' \<notin> param_name ` set (signature example_f)
   \<and> VAR_KEYWORD \<notin> param_kind ` set (signature example_f)
   \<and> param_default (signature example_f ! 0) = None
   \<and> param_kind (signature example_f ! 0) = POSITIONAL_OR_KEYWORD
   \<and> param_name (signature example_f ! 0) \<notin> fst ` set [(''default'', VInt 1)]"
proof -
  have sf: "signature example_f = example_signature"
    by (simp add: example_f_def)
  have h2: "length (signature example_f) < length [VInt 1, VInt 2, VInt 3, VInt 4]
            \<and> VAR_POSITIONAL \<notin> param_kind ` set (signature example_f)"
    by (simp add: sf example_signature_def)
  have h3: "''y'' \<in> fst ` set [(''y'', VInt 2)]
            \<and> ''y'' \<notin> param_name ` set (signature example_f)
            \<and> VAR_KEYWORD \<notin> param_kind ` set (signature example_f)"
    by (simp add: sf example_signature_def)
  have h4: "param_default (signature example_f ! 0) = None
            \<and> param_kind (signature example_f ! 0) = POSITIONAL_OR_KEYWORD
            \<and> param_name (signature example_f ! 0) \<notin> fst ` set [(''default'', VInt 1)]"
    by (simp add: sf example_signature_def)
  from h2 unbound_call_raises
    [of example_f "[VInt 1, VInt 2, VInt 3, VInt 4]" "[]" test_env r1_benchmark process0]
  have "\<exists>err. bind (signature example_f) [VInt 1, VInt 2, VInt 3, VInt 4] [] = Inl err"
    by blast
  from h3 unbound_call_raises
    [of example_f "[VInt 1]" "[(''y'', VInt 2)]" test_env r1_benchmark process0]
  have "\<exists>err. bind (signature example_f) [VInt 1] [(''y'', VInt 2)] = Inl err"
    by blast
  have "0 < length (signature example_f) \<and> length ([]::pyval list) \<le> 0
        \<and> param_default (signature example_f ! 0) = None
        \<and> param_kind (signature example_f ! 0) \<noteq> VAR_POSITIONAL
        \<and> param_kind (signature example_f ! 0) \<noteq> VAR_KEYWORD
        \<and> param_name (signature example_f ! 0) \<notin> fst ` set [(''default'', VInt 1)]"
    by (simp add: sf example_signature_def)
  with unbound_call_raises
    [of example_f "[]" "[(''default'', VInt 1)]" test_env r1_benchmark process0]
  have "\<exists>err. bind (signature example_f) [] [(''default'', VInt 1)] = Inl err"
    by blast
  have m: "bind (signature example_f) [] [(''default'', VInt 1)] = Inl (MissingRequired ''x'')"
    by code_simp
  have t: "bind (signature example_f) [VInt 1, VInt 2, VInt 3, VInt 4] [] = Inl TooManyPositional"
    by code_simp
  have u: "bind (signature example_f) [VInt 1] [(''y'', VInt 2)] = Inl (UnexpectedKeyword ''y'')"
    by code_simp
  from unbound_call_raises
    [of example_f "[]" "[(''default'', VInt 1)]" test_env r1_benchmark process0] m
  have 1: "exists test_env example_f [] [(''default'', VInt 1)] r1_benchmark
       = Inl (TypeError (MissingRequired ''x''))"
    "run test_env example_f [] [(''default'', VInt 1)] (r1_benchmark, process0)
       = (Inl (TypeError (MissingRequired ''x'')), r1_benchmark, process0)"
    "add test_env example_f [] [(''default'', VInt 1)] (r1_benchmark, process0)
       = (Inl (TypeError (MissingRequired ''x'')), r1_benchmark, process0)"
    by blast+
  from unbound_call_raises
    [of example_f "[VInt 1, VInt 2, VInt 3, VInt 4]" "[]" test_env r1_benchmark process0] t
  have 2: "run test_env example_f [VInt 1, VInt 2, VInt 3, VInt 4] [] (r1_benchmark, process0)
       = (Inl (TypeError TooManyPositional), r1_benchmark, process0)"
    by blast
  from unbound_call_raises
    [of example_f "[VInt 1]" "[(''y'', VInt 2)]" test_env r1_benchmark process0] u
  have 3: "run test_env example_f [VInt 1] [(''y'', VInt 2)] (r1_benchmark, process0)
       = (Inl (TypeError (UnexpectedKeyword ''y'')), r1_benchmark, process0)"
    by blast
  from m t u 1 2 3 h2 h3 h4 show ?thesis by (intro conjI) blast+
qed

end
